theory Spec2Isabelle
  imports Main
begin

section \<open>Texts and character classes\<close>

text \<open>
  A Python \<open>str\<close> is a sequence of Unicode code points, modelled as a list of naturals.
  \<open>u\<close> turns an ASCII literal into such a text.
\<close>

type_synonym ustr = "nat list"

definition u :: "string \<Rightarrow> ustr" where
  "u s = map of_char s"

text \<open>
  The parts of the Unicode character database that the regular expressions and string
  methods of the sources consult beyond ASCII are a parameter of the model:
  \<^item> \<open>nd_zeros\<close>: the digit zero of every block of decimal digits (category Nd) outside
    ASCII; each block is ten consecutive code points with the values 0 to 9;
  \<^item> \<open>alnum_hi\<close>: \<open>str.isalnum\<close> on a code point outside ASCII;
  \<^item> \<open>nfkd_nomark\<close>: \<open>unicodedata.normalize("NFKD", s)\<close> with the combining marks removed;
  \<^item> \<open>lower\<close>: \<open>str.lower\<close>.
  What they do on ASCII is fixed by the definitions below, not by the parameter.
\<close>

record ucd =
  nd_zeros :: "nat list"
  alnum_hi :: "nat \<Rightarrow> bool"
  nfkd_nomark :: "ustr \<Rightarrow> ustr"
  lower :: "ustr \<Rightarrow> ustr"

definition is_space :: "nat \<Rightarrow> bool" where
  \<comment> \<open>\<open>\s\<close> on a \<open>str\<close> pattern and \<open>str.isspace\<close>: the same 29 code points\<close>
  "is_space c \<longleftrightarrow>
     (9 \<le> c \<and> c \<le> 13) \<or> (28 \<le> c \<and> c \<le> 32) \<or> c = 133 \<or> c = 160 \<or> c = 5760 \<or>
     (8192 \<le> c \<and> c \<le> 8202) \<or> c = 8232 \<or> c = 8233 \<or> c = 8239 \<or> c = 8287 \<or> c = 12288"

definition is_ascii_digit :: "nat \<Rightarrow> bool" where
  "is_ascii_digit c \<longleftrightarrow> 48 \<le> c \<and> c \<le> 57"

definition is_ascii_upper :: "nat \<Rightarrow> bool" where
  "is_ascii_upper c \<longleftrightarrow> 65 \<le> c \<and> c \<le> 90"

definition is_ascii_lower :: "nat \<Rightarrow> bool" where
  "is_ascii_lower c \<longleftrightarrow> 97 \<le> c \<and> c \<le> 122"

definition is_ascii_letter :: "nat \<Rightarrow> bool" where
  \<comment> \<open>\<open>[A-Za-z]\<close> without IGNORECASE\<close>
  "is_ascii_letter c \<longleftrightarrow> is_ascii_upper c \<or> is_ascii_lower c"

definition is_ascii_alnum :: "nat \<Rightarrow> bool" where
  \<comment> \<open>\<open>[A-Za-z0-9]\<close>\<close>
  "is_ascii_alnum c \<longleftrightarrow> is_ascii_letter c \<or> is_ascii_digit c"

definition hi_zero :: "ucd \<Rightarrow> nat \<Rightarrow> nat option" where
  \<comment> \<open>the zero of the non-ASCII decimal block that holds \<open>c\<close>\<close>
  "hi_zero U c = find (\<lambda>z. 128 \<le> z \<and> z \<le> c \<and> c < z + 10) (nd_zeros U)"

definition is_digit :: "ucd \<Rightarrow> nat \<Rightarrow> bool" where
  \<comment> \<open>\<open>\d\<close> on a \<open>str\<close> pattern: any decimal digit\<close>
  "is_digit U c \<longleftrightarrow> is_ascii_digit c \<or> (128 \<le> c \<and> hi_zero U c \<noteq> None)"

definition digit_val :: "ucd \<Rightarrow> nat \<Rightarrow> nat" where
  "digit_val U c =
     (if is_ascii_digit c then c - 48
      else case hi_zero U c of Some z \<Rightarrow> c - z | None \<Rightarrow> 0)"

definition is_word :: "ucd \<Rightarrow> nat \<Rightarrow> bool" where
  \<comment> \<open>\<open>\w\<close> on a \<open>str\<close> pattern: alphanumeric or underscore\<close>
  "is_word U c \<longleftrightarrow> (if c < 128 then is_ascii_alnum c \<or> c = 95 else alnum_hi U c)"

definition lower_ascii :: "nat \<Rightarrow> nat" where
  "lower_ascii c = (if is_ascii_upper c then c + 32 else c)"

definition upper_ascii :: "nat \<Rightarrow> nat" where
  "upper_ascii c = (if is_ascii_lower c then c - 32 else c)"

definition ci_lit :: "nat \<Rightarrow> nat \<Rightarrow> bool" where
  \<comment> \<open>an ASCII letter \<open>p\<close> of a pattern under IGNORECASE against the character \<open>c\<close>:
      both cases of \<open>p\<close>, and the extra case variants that \<open>re\<close> knows for i, s and k\<close>
  "ci_lit p c \<longleftrightarrow>
     c = lower_ascii p \<or> c = upper_ascii p \<or>
     (lower_ascii p = 105 \<and> (c = 304 \<or> c = 305)) \<or>
     (lower_ascii p = 115 \<and> c = 383) \<or>
     (lower_ascii p = 107 \<and> c = 8490)"

section \<open>Python string helpers\<close>

definition strip :: "ustr \<Rightarrow> ustr" where
  \<comment> \<open>\<open>str.strip()\<close>\<close>
  "strip s = rev (dropWhile is_space (rev (dropWhile is_space s)))"

function sub_ws :: "ustr \<Rightarrow> ustr" where
  \<comment> \<open>\<open>re.sub(r"\s+", " ", s)\<close>\<close>
  "sub_ws [] = []"
| "sub_ws (c # cs) =
     (if is_space c then 32 # sub_ws (dropWhile is_space cs) else c # sub_ws cs)"
  by pat_completeness auto
termination
  by (relation "measure length") (auto simp: less_Suc_eq_le length_dropWhile_le)

definition sup_digit :: "nat \<Rightarrow> nat" where
  \<comment> \<open>\<open>_SUP_MAP\<close>: superscript digits 0 to 9 to ASCII digits\<close>
  "sup_digit c =
     (if c = 8304 then 48 else if c = 185 then 49 else if c = 178 then 50
      else if c = 179 then 51 else if 8308 \<le> c \<and> c \<le> 8313 then c - 8256 else c)"

definition translate_sup :: "ustr \<Rightarrow> ustr" where
  \<comment> \<open>\<open>s.translate(_SUP_MAP)\<close>\<close>
  "translate_sup s = map sup_digit s"

fun str_nat :: "nat \<Rightarrow> ustr" where
  \<comment> \<open>\<open>str(n)\<close> for a non-negative integer\<close>
  "str_nat n = (if n < 10 then [48 + n] else str_nat (n div 10) @ [48 + n mod 10])"

declare str_nat.simps [simp del]

definition str_int :: "int \<Rightarrow> ustr" where
  \<comment> \<open>\<open>str(i)\<close>, as an f-string renders an integer\<close>
  "str_int i = (if i < 0 then 45 # str_nat (nat (- i)) else str_nat (nat i))"

definition int_of_digits :: "ucd \<Rightarrow> ustr \<Rightarrow> nat" where
  \<comment> \<open>\<open>int(s)\<close> on a string of decimal digits\<close>
  "int_of_digits U s = foldl (\<lambda>a c. 10 * a + digit_val U c) 0 s"

definition chop_newline :: "ustr \<Rightarrow> ustr" where
  \<comment> \<open>\<open>$\<close> without MULTILINE matches at the end and before a newline that ends the
      string: a pattern that cannot consume a newline matches up to \<open>$\<close> exactly when it
      matches all of \<open>chop_newline s\<close>\<close>
  "chop_newline s = (if s \<noteq> [] \<and> last s = 10 then butlast s else s)"

fun first_some :: "('a \<Rightarrow> 'b option) \<Rightarrow> 'a list \<Rightarrow> 'b option" where
  \<comment> \<open>backtracking: the alternatives in the order the engine tries them\<close>
  "first_some f [] = None"
| "first_some f (x # xs) = (case f x of Some y \<Rightarrow> Some y | None \<Rightarrow> first_some f xs)"

section \<open>neo4j\_fix\_superscripts.py: article numbers\<close>

text \<open>
  Compiling the pattern of the arabic form (source line 86) fails for two ranges of
  \<open>tail_max\<close>: \<open>\d{1,0}\<close> is refused with \<open>re.error\<close> (the least repeat is greater than the
  greatest), and a bound of \<open>4294967295\<close> or more with \<open>OverflowError\<close> (the repetition
  number is too large). A negative bound compiles: the braces are then literal text.
\<close>

datatype error = RegexError | OverflowError

subsection \<open>Roman numerals\<close>

definition roman_class :: "nat \<Rightarrow> bool" where
  \<comment> \<open>\<open>[IVXLCDM]\<close> under \<open>(?i)\<close>\<close>
  "roman_class c \<longleftrightarrow> list_ex (\<lambda>p. ci_lit p c) [73, 86, 88, 76, 67, 68, 77]"

definition rep_upto :: "nat \<Rightarrow> nat \<Rightarrow> ustr \<Rightarrow> ustr list" where
  \<comment> \<open>\<open>p{0,n}\<close> for a letter under \<open>(?i)\<close>, greedy: what is left after each number of
      repetitions, most first\<close>
  "rep_upto n p s = map (\<lambda>k. drop k s) (rev [0..<Suc (min n (length (takeWhile (ci_lit p) s)))])"

fun lits :: "nat list \<Rightarrow> ustr \<Rightarrow> ustr list" where
  \<comment> \<open>a sequence of letters under \<open>(?i)\<close>\<close>
  "lits [] s = [s]"
| "lits (p # ps) [] = []"
| "lits (p # ps) (c # cs) = (if ci_lit p c then lits ps cs else [])"

definition roman_group :: "nat \<Rightarrow> nat \<Rightarrow> nat \<Rightarrow> ustr \<Rightarrow> ustr list" where
  \<comment> \<open>\<open>(ac|ab|b?a{0,3})\<close> for the letters one \<open>a\<close>, five \<open>b\<close> and ten \<open>c\<close> of a decimal place,
      for example \<open>(IX|IV|V?I{0,3})\<close>\<close>
  "roman_group a b c s =
     lits [a, c] s @ lits [a, b] s @ [r. r1 \<leftarrow> rep_upto 1 b s, r \<leftarrow> rep_upto 3 a r1]"

definition is_roman :: "ustr \<Rightarrow> bool" where
  \<comment> \<open>\<open>_is_roman\<close>: \<open>_ROMAN_RE.match(tok)\<close>, the lookahead \<open>(?=[IVXLCDM]{1,8}$)\<close> first, then
      \<open>M{0,4}(CM|CD|D?C{0,3})(XC|XL|L?X{0,3})(IX|IV|V?I{0,3})$\<close>\<close>
  "is_roman tok \<longleftrightarrow>
     (let t = chop_newline tok in 1 \<le> length t \<and> length t \<le> 8 \<and> list_all roman_class t) \<and>
     [r. r1 \<leftarrow> rep_upto 4 77 tok, r2 \<leftarrow> roman_group 67 68 77 r1, r3 \<leftarrow> roman_group 88 76 67 r2,
         r \<leftarrow> roman_group 73 86 88 r3, chop_newline r = []] \<noteq> []"

subsection \<open>normalize\_article\_number\<close>

definition tidy_prefix :: "ustr \<Rightarrow> ustr" where
  "tidy_prefix prefix = u ''Art.''"

definition match_art_prefix :: "ustr \<Rightarrow> (ustr \<times> ustr) option" where
  \<comment> \<open>\<open>re.match(r"(?is)^\s*(art\.?)\s*(.*)$", s)\<close>: groups 1 and 2\<close>
  "match_art_prefix s =
     (case dropWhile is_space s of
        a # r # t # s2 \<Rightarrow>
          if ci_lit 97 a \<and> ci_lit 114 r \<and> ci_lit 116 t then
            (case s2 of
               d # s3 \<Rightarrow>
                 if d = 46 then Some ([a, r, t, d], dropWhile is_space s3)
                 else Some ([a, r, t], dropWhile is_space s2)
             | [] \<Rightarrow> Some ([a, r, t], []))
          else None
      | _ \<Rightarrow> None)"

definition valid_tail :: "ucd \<Rightarrow> int \<Rightarrow> ustr \<Rightarrow> bool" where
  \<comment> \<open>all of \<open>t\<close> matches \<open>\d{1,tail_max}\<close> as the f-string renders it: a repetition for
      \<open>tail_max \<ge> 1\<close>; for a negative \<open>tail_max\<close> the braces are no repetition, and the
      pattern is one digit and the literal text \<open>{1,-n}\<close>\<close>
  "valid_tail U tail_max t \<longleftrightarrow>
     (if 1 \<le> tail_max then 1 \<le> length t \<and> int (length t) \<le> tail_max \<and> list_all (is_digit U) t
      else case t of
             d # l \<Rightarrow> is_digit U d \<and> l = u ''{1,'' @ str_int tail_max @ u ''}''
           | [] \<Rightarrow> False)"

definition match_tail_end :: "ucd \<Rightarrow> int \<Rightarrow> ustr \<Rightarrow> ustr option option" where
  \<comment> \<open>\<open>(?P<tail>\d{1,tail_max})?$\<close> on what the groups before it have left\<close>
  "match_tail_end U tail_max r =
     (let r' = chop_newline r in
      if r' = [] then Some None
      else if valid_tail U tail_max r' then Some (Some r')
      else None)"

definition try_arabic :: "ucd \<Rightarrow> int \<Rightarrow> ustr \<Rightarrow> nat \<Rightarrow> (ustr \<times> ustr \<times> ustr option) option" where
  \<comment> \<open>\<open>num\<close> of \<open>k\<close> digits; then the letter, and without it when that fails\<close>
  "try_arabic U tail_max s k =
     (if k \<le> length s \<and> list_all (is_digit U) (take k s) then
        (case (case drop k s of
                 c # r \<Rightarrow> if is_ascii_letter c
                          then map_option (\<lambda>t. (take k s, [c], t)) (match_tail_end U tail_max r)
                          else None
               | [] \<Rightarrow> None) of
           Some m \<Rightarrow> Some m
         | None \<Rightarrow> map_option (\<lambda>t. (take k s, [], t)) (match_tail_end U tail_max (drop k s)))
      else None)"

definition match_arabic :: "ucd \<Rightarrow> int \<Rightarrow> ustr \<Rightarrow> (ustr \<times> ustr \<times> ustr option) option" where
  \<comment> \<open>\<open>^(?P<num>\d{1,3})(?P<letter>[A-Za-z])?(?P<tail>\d{1,tail_max})?$\<close>:
      groups num, letter (empty when absent) and tail\<close>
  "match_arabic U tail_max s = first_some (try_arabic U tail_max s) [3, 2, 1]"

definition is_roman_letter :: "nat \<Rightarrow> bool" where
  \<comment> \<open>\<open>[IVXLCDMivxlcdm]\<close>\<close>
  "is_roman_letter c \<longleftrightarrow> c \<in> set (u ''IVXLCDMivxlcdm'')"

definition try_roman :: "ucd \<Rightarrow> int \<Rightarrow> ustr \<Rightarrow> nat \<Rightarrow> (ustr \<times> ustr option) option" where
  "try_roman U tail_max s k =
     (if k \<le> length s \<and> list_all is_roman_letter (take k s)
      then map_option (\<lambda>t. (take k s, t)) (match_tail_end U tail_max (drop k s))
      else None)"

definition match_roman :: "ucd \<Rightarrow> int \<Rightarrow> ustr \<Rightarrow> (ustr \<times> ustr option) option" where
  \<comment> \<open>\<open>^(?P<roman>[IVXLCDMivxlcdm]{1,8})(?P<tail>\d{1,tail_max})?$\<close>: groups roman and tail\<close>
  "match_roman U tail_max s = first_some (try_roman U tail_max s) [8, 7, 6, 5, 4, 3, 2, 1]"

function tokens :: "ustr \<Rightarrow> ustr list" where
  \<comment> \<open>\<open>re.findall(r"[A-Za-z0-9]+", s)\<close>: the maximal runs, left to right\<close>
  "tokens [] = []"
| "tokens (c # cs) =
     (if is_ascii_alnum c
      then (c # takeWhile is_ascii_alnum cs) # tokens (dropWhile is_ascii_alnum cs)
      else tokens cs)"
  by pat_completeness auto
termination
  by (relation "measure length") (auto simp: less_Suc_eq_le length_dropWhile_le)

definition fullmatch_digits3 :: "ucd \<Rightarrow> ustr \<Rightarrow> bool" where
  \<comment> \<open>\<open>re.fullmatch(r"\d{1,3}", tok)\<close>\<close>
  "fullmatch_digits3 U tok \<longleftrightarrow> 1 \<le> length tok \<and> length tok \<le> 3 \<and> list_all (is_digit U) tok"

definition fullmatch_letter :: "ustr \<Rightarrow> bool" where
  \<comment> \<open>\<open>re.fullmatch(r"[A-Za-z]", tok)\<close>\<close>
  "fullmatch_letter tok \<longleftrightarrow> (case tok of [c] \<Rightarrow> is_ascii_letter c | _ \<Rightarrow> False)"

definition normalize_tokens :: "ucd \<Rightarrow> int \<Rightarrow> ustr \<Rightarrow> ustr \<Rightarrow> (ustr \<times> ustr option) option" where
  \<comment> \<open>the fallback on separate tokens (source lines 103 to 119); \<open>None\<close> when it falls through\<close>
  "normalize_tokens U tail_max prefix rest =
     (case tokens (translate_sup rest) of
        [] \<Rightarrow> None
      | t0 # ts \<Rightarrow>
          if fullmatch_digits3 U t0 then
            (let num = str_nat (int_of_digits U t0) in
             case ts of
               [] \<Rightarrow> Some (prefix @ [32] @ num, None)
             | t1 # ts' \<Rightarrow>
                 if fullmatch_letter t1 then
                   (case ts' of
                      [] \<Rightarrow> Some (prefix @ [32] @ num @ map lower_ascii t1, None)
                    | t2 # _ \<Rightarrow>
                        Some (prefix @ [32] @ num @ map lower_ascii t1,
                              if valid_tail U tail_max t2 then Some t2 else None))
                 else if valid_tail U tail_max t1 then Some (prefix @ [32] @ num, Some t1)
                 else Some (prefix @ [32] @ num, None))
          else if is_roman t0 then
            Some (prefix @ [32] @ map upper_ascii t0,
                  case ts of
                    t1 # _ \<Rightarrow> if valid_tail U tail_max t1 then Some t1 else None
                  | [] \<Rightarrow> None)
          else None)"

definition normalize_article_number :: "ucd \<Rightarrow> ustr \<Rightarrow> int \<Rightarrow> error + (ustr \<times> ustr option)" where
  "normalize_article_number U raw tail_max =
     (if raw = [] then Inr ([], None)
      else
        let s = translate_sup (sub_ws (strip raw)) in
        case match_art_prefix s of
          None \<Rightarrow> Inr (s, None)
        | Some (prefix_raw, rest) \<Rightarrow>
            let prefix = tidy_prefix prefix_raw;
                rest_compact = filter (\<lambda>c. c \<noteq> 32) rest
            in
            if tail_max = 0 then Inl RegexError
            else if 4294967295 \<le> tail_max then Inl OverflowError
            else
              case match_arabic U tail_max rest_compact of
                Some (num, letter, tail) \<Rightarrow>
                  Inr (prefix @ [32] @ str_nat (int_of_digits U num) @ map lower_ascii letter, tail)
              | None \<Rightarrow>
                  (case (case match_roman U tail_max rest_compact of
                           Some (roman, tail) \<Rightarrow>
                             if is_roman roman
                             then Some (prefix @ [32] @ map upper_ascii roman, tail) else None
                         | None \<Rightarrow> None) of
                     Some res \<Rightarrow> Inr res
                   | None \<Rightarrow>
                       (case normalize_tokens U tail_max prefix rest of
                          Some res \<Rightarrow> Inr res
                        | None \<Rightarrow> Inr (prefix @ [32] @ strip rest, None))))"

subsection \<open>The normaliser in two steps\<close>

text \<open>
  To reason about the normaliser it is cut in two: \<open>prep\<close> is what it does to the input
  before it looks for the prefix (source lines 69 and 70), and \<open>normalize_rest\<close> is what it
  does once the prefix has matched (source lines 78 to 122); \<open>normalize_unfold\<close> below puts
  the two together again. \<open>ws_normal\<close> and \<open>edge_ok\<close> describe the texts that \<open>prep\<close> produces,
  and \<open>roman_parse\<close> names the second half of \<open>is_roman\<close>.
\<close>

fun ws_normal :: "ustr \<Rightarrow> bool" where
  \<comment> \<open>every white space is one space character followed by a character that is none\<close>
  "ws_normal [] \<longleftrightarrow> True"
| "ws_normal (c # cs) \<longleftrightarrow>
     (if is_space c then c = 32 \<and> (case cs of [] \<Rightarrow> True | d # _ \<Rightarrow> \<not> is_space d) else True) \<and>
     ws_normal cs"


definition edge_ok :: "ustr \<Rightarrow> bool" where
  \<comment> \<open>no white space at either end\<close>
  "edge_ok s \<longleftrightarrow> (case s of [] \<Rightarrow> True | c # _ \<Rightarrow> \<not> is_space c \<and> \<not> is_space (last s))"




section \<open>Regular expressions by position\<close>

text \<open>
  The patterns of \<open>pdf2articles.py\<close> are searched inside a text, with anchors and word
  boundaries that look at the neighbours of a position. A piece of a pattern is a function
  from the text and a start index to the end indices of its matches there, in the order
  the backtracking engine tries them; a sequence of pieces is a list comprehension, and
  the first element of the result is the match the engine returns.
\<close>

definition star :: "(nat \<Rightarrow> bool) \<Rightarrow> ustr \<Rightarrow> nat \<Rightarrow> nat list" where
  \<comment> \<open>\<open>c*\<close> for a character class, greedy\<close>
  "star P s i = map (\<lambda>k. i + k) (rev [0..<Suc (length (takeWhile P (drop i s)))])"

definition plus :: "(nat \<Rightarrow> bool) \<Rightarrow> ustr \<Rightarrow> nat \<Rightarrow> nat list" where
  \<comment> \<open>\<open>c+\<close> for a character class, greedy\<close>
  "plus P s i = map (\<lambda>k. i + k) (rev [1..<Suc (length (takeWhile P (drop i s)))])"

definition upto3 :: "(nat \<Rightarrow> bool) \<Rightarrow> ustr \<Rightarrow> nat \<Rightarrow> nat list" where
  \<comment> \<open>\<open>c{1,3}\<close> for a character class, greedy\<close>
  "upto3 P s i = map (\<lambda>k. i + k) (rev [1..<Suc (min 3 (length (takeWhile P (drop i s))))])"

definition one :: "(nat \<Rightarrow> bool) \<Rightarrow> ustr \<Rightarrow> nat \<Rightarrow> nat list" where
  \<comment> \<open>one character of a class\<close>
  "one P s i = (if i < length s \<and> P (s ! i) then [Suc i] else [])"

definition opt :: "(ustr \<Rightarrow> nat \<Rightarrow> nat list) \<Rightarrow> ustr \<Rightarrow> nat \<Rightarrow> nat list" where
  \<comment> \<open>\<open>p?\<close>, greedy\<close>
  "opt m s i = m s i @ [i]"

fun lits_ci :: "nat list \<Rightarrow> ustr \<Rightarrow> nat \<Rightarrow> nat list" where
  \<comment> \<open>a sequence of ASCII letters under IGNORECASE\<close>
  "lits_ci [] s i = [i]"
| "lits_ci (p # ps) s i = (if i < length s \<and> ci_lit p (s ! i) then lits_ci ps s (Suc i) else [])"

definition letter_ci :: "nat \<Rightarrow> bool" where
  \<comment> \<open>\<open>[a-zA-Z]\<close> under IGNORECASE: the ASCII letters and the four case variants of
      i, s and k outside ASCII\<close>
  "letter_ci c \<longleftrightarrow> is_ascii_letter c \<or> c = 304 \<or> c = 305 \<or> c = 383 \<or> c = 8490"

definition word_at :: "ucd \<Rightarrow> ustr \<Rightarrow> nat \<Rightarrow> bool" where
  "word_at U s i \<longleftrightarrow> i < length s \<and> is_word U (s ! i)"

definition wb :: "ucd \<Rightarrow> ustr \<Rightarrow> nat \<Rightarrow> nat list" where
  \<comment> \<open>\<open>\b\<close>: a word character on exactly one side\<close>
  "wb U s i = (if (0 < i \<and> word_at U s (i - 1)) \<noteq> word_at U s i then [i] else [])"

definition bol :: "ustr \<Rightarrow> nat \<Rightarrow> nat list" where
  \<comment> \<open>\<open>^\<close> under MULTILINE\<close>
  "bol s i = (if i = 0 \<or> (i \<le> length s \<and> s ! (i - 1) = 10) then [i] else [])"

definition eol :: "ustr \<Rightarrow> nat \<Rightarrow> nat list" where
  \<comment> \<open>\<open>$\<close> under MULTILINE\<close>
  "eol s i = (if i = length s \<or> (i < length s \<and> s ! i = 10) then [i] else [])"

definition eos :: "ustr \<Rightarrow> nat \<Rightarrow> nat list" where
  \<comment> \<open>\<open>$\<close> without MULTILINE\<close>
  "eos s i = (if i = length s \<or> (Suc i = length s \<and> s ! i = 10) then [i] else [])"

definition first_match :: "'a list \<Rightarrow> 'a option" where
  "first_match xs = (case xs of [] \<Rightarrow> None | x # _ \<Rightarrow> Some x)"

definition search_from :: "(ustr \<Rightarrow> nat \<Rightarrow> nat option) \<Rightarrow> ustr \<Rightarrow> nat \<Rightarrow> (nat \<times> nat) option" where
  \<comment> \<open>\<open>pattern.search(s, pos)\<close>: the leftmost start from \<open>pos\<close> on, as (start, end)\<close>
  "search_from m s pos = first_some (\<lambda>i. map_option (Pair i) (m s i)) [pos..<Suc (length s)]"

definition slice :: "ustr \<Rightarrow> nat \<Rightarrow> nat \<Rightarrow> ustr" where
  \<comment> \<open>\<open>s[a:b]\<close> for indices that are not negative\<close>
  "slice s a b = take (b - a) (drop a s)"

section \<open>pdf2articles.py: document id\<close>

definition match_doc_id :: "ucd \<Rightarrow> ustr \<Rightarrow> nat \<Rightarrow> nat option" where
  \<comment> \<open>\<open>DOC_ID_RE\<close>, \<open>\b\d{1,3}\.\d{1,3}\.\d{1,3}\b\<close>, at one start\<close>
  "match_doc_id U s i =
     first_match [e. i0 \<leftarrow> wb U s i, i1 \<leftarrow> upto3 (is_digit U) s i0, i2 \<leftarrow> one (\<lambda>c. c = 46) s i1,
                     i3 \<leftarrow> upto3 (is_digit U) s i2, i4 \<leftarrow> one (\<lambda>c. c = 46) s i3,
                     i5 \<leftarrow> upto3 (is_digit U) s i4, e \<leftarrow> wb U s i5]"

definition guess_doc_id_from_first_page :: "ucd \<Rightarrow> ustr \<Rightarrow> ustr option" where
  "guess_doc_id_from_first_page U page_text =
     (case search_from (match_doc_id U) page_text 0 of
        Some (a, b) \<Rightarrow> Some (slice page_text a b)
      | None \<Rightarrow> None)"

definition truthy :: "ustr option \<Rightarrow> bool" where
  \<comment> \<open>Python truth of a value that is a string or \<open>None\<close>\<close>
  "truthy x \<longleftrightarrow> (case x of Some s \<Rightarrow> s \<noteq> [] | None \<Rightarrow> False)"

definition process_pdf_doc_id :: "ucd \<Rightarrow> ustr list \<Rightarrow> ustr \<Rightarrow> ustr" where
  \<comment> \<open>\<open>process_pdf\<close>, source lines 191 and 192: the document id of a file with the given
      page texts and filename stem\<close>
  "process_pdf_doc_id U page_texts stem =
     (let first_page_text = (case page_texts of [] \<Rightarrow> [] | t # _ \<Rightarrow> t) in
      case guess_doc_id_from_first_page U first_page_text of
        Some d \<Rightarrow> if d \<noteq> [] then d else stem
      | None \<Rightarrow> stem)"

text \<open>
  The dotted numeral in the specification's words, to state what the search finds.
\<close>

definition digit_group :: "ucd \<Rightarrow> ustr \<Rightarrow> bool" where
  \<comment> \<open>a group of one to three digits\<close>
  "digit_group U g \<longleftrightarrow> 1 \<le> length g \<and> length g \<le> 3 \<and> list_all (is_digit U) g"

definition dotted_numeral :: "ucd \<Rightarrow> ustr \<Rightarrow> bool" where
  \<comment> \<open>the dotted numeral of the pattern: three groups of one to three digits joined by
      periods\<close>
  "dotted_numeral U d \<longleftrightarrow>
     (\<exists>g1 g2 g3. d = g1 @ [46] @ g2 @ [46] @ g3 \<and>
        digit_group U g1 \<and> digit_group U g2 \<and> digit_group U g3)"

definition boundary :: "ucd \<Rightarrow> ustr \<Rightarrow> nat \<Rightarrow> bool" where
  \<comment> \<open>a word boundary at index \<open>i\<close>\<close>
  "boundary U s i \<longleftrightarrow> ((0 < i \<and> word_at U s (i - 1)) \<noteq> word_at U s i)"

definition occurs_at :: "ucd \<Rightarrow> ustr \<Rightarrow> nat \<Rightarrow> nat \<Rightarrow> bool" where
  \<comment> \<open>a dotted numeral stands in \<open>s\<close> from \<open>a\<close> to \<open>e\<close>, between word boundaries\<close>
  "occurs_at U s a e \<longleftrightarrow>
     a \<le> e \<and> e \<le> length s \<and> dotted_numeral U (slice s a e) \<and> boundary U s a \<and> boundary U s e"

section \<open>pdf2articles.py: article segments\<close>

record heading_match =
  m_start :: nat
  m_end :: nat
  m_group1 :: ustr

definition match_heading :: "ucd \<Rightarrow> ustr \<Rightarrow> nat \<Rightarrow> heading_match option" where
  \<comment> \<open>\<open>ART_HEADING_RE\<close>, \<open>^\s*Art\.\s*(\d+[a-zA-Z]?)\s*$\<close> under IGNORECASE and MULTILINE,
      at one start\<close>
  "match_heading U s i =
     first_match [\<lparr> m_start = i, m_end = e, m_group1 = slice s g0 g2 \<rparr>.
                    i0 \<leftarrow> bol s i, i1 \<leftarrow> star is_space s i0, i2 \<leftarrow> lits_ci (u ''Art'') s i1,
                    i3 \<leftarrow> one (\<lambda>c. c = 46) s i2, g0 \<leftarrow> star is_space s i3,
                    g1 \<leftarrow> plus (is_digit U) s g0, g2 \<leftarrow> opt (one letter_ci) s g1,
                    e0 \<leftarrow> star is_space s g2, e \<leftarrow> eol s e0]"

function finditer_heading :: "ucd \<Rightarrow> ustr \<Rightarrow> nat \<Rightarrow> heading_match list" where
  \<comment> \<open>\<open>ART_HEADING_RE.finditer(s)\<close> from \<open>pos\<close> on: after a match the scan goes on at its
      end, and one character further after an empty match\<close>
  "finditer_heading U s pos =
     (if length s < pos then []
      else case match_heading U s pos of
             None \<Rightarrow> finditer_heading U s (Suc pos)
           | Some m \<Rightarrow> m # finditer_heading U s (if pos < m_end m then m_end m else Suc pos))"
  by pat_completeness auto
termination
  by (relation "measure (\<lambda>(U, s, pos). Suc (length s) - pos)") auto

declare finditer_heading.simps [simp del]

definition find_articles_segments :: "ucd \<Rightarrow> ustr \<Rightarrow> (ustr \<times> nat \<times> nat) list" where
  "find_articles_segments U full_text =
     (let matches = finditer_heading U full_text 0 in
      map (\<lambda>idx.
             (m_group1 (matches ! idx),
              m_start (matches ! idx),
              if idx + 1 < length matches then m_start (matches ! (idx + 1))
              else length full_text))
          [0..<length matches])"

section \<open>pdf2articles.py: page ranges\<close>





section \<open>pdf2articles.py: document title\<close>

definition match_start_pat :: "ustr \<Rightarrow> nat \<Rightarrow> nat option" where
  \<comment> \<open>\<open>start_pat\<close>, \<open>texte\s+original\<close> under IGNORECASE, at one start\<close>
  "match_start_pat s i =
     first_match [e. i1 \<leftarrow> lits_ci (u ''texte'') s i, i2 \<leftarrow> plus is_space s i1,
                     e \<leftarrow> lits_ci (u ''original'') s i2]"

definition match_end_pat :: "ucd \<Rightarrow> ustr \<Rightarrow> nat \<Rightarrow> nat option" where
  \<comment> \<open>\<open>end_pat\<close>, \<open>\bconclu(e)?\b\<close> under IGNORECASE, at one start\<close>
  "match_end_pat U s i =
     first_match [e. i0 \<leftarrow> wb U s i, i1 \<leftarrow> lits_ci (u ''conclu'') s i0,
                     i2 \<leftarrow> opt (lits_ci (u ''e'')) s i1, e \<leftarrow> wb U s i2]"

definition marker_segment :: "ucd \<Rightarrow> ustr \<Rightarrow> ustr option" where
  \<comment> \<open>the search for the two markers in the normalised text and the slice of the text
      itself at the indices found; \<open>None\<close> is the \<open>else\<close> branch\<close>
  "marker_segment U txt =
     (let norm = nfkd_nomark U txt;
          ms = search_from match_start_pat norm 0;
          me = (case ms of
                  Some (_, s_end) \<Rightarrow> search_from (match_end_pat U) norm s_end
                | None \<Rightarrow> search_from (match_end_pat U) norm 0)
      in case ms of
           Some (_, s_end) \<Rightarrow>
             (case me of
                Some (e_start, _) \<Rightarrow> if s_end < e_start then Some (slice txt s_end e_start) else None
              | None \<Rightarrow> None)
         | None \<Rightarrow>
             (case me of
                Some (e_start, _) \<Rightarrow> Some (slice txt 0 e_start)
              | None \<Rightarrow> None))"

definition is_linebreak :: "nat \<Rightarrow> bool" where
  \<comment> \<open>the line boundaries of \<open>str.splitlines\<close>\<close>
  "is_linebreak c \<longleftrightarrow>
     (10 \<le> c \<and> c \<le> 13) \<or> (28 \<le> c \<and> c \<le> 30) \<or> c = 133 \<or> c = 8232 \<or> c = 8233"

fun splitlines_from :: "ustr \<Rightarrow> ustr \<Rightarrow> ustr list" where
  \<comment> \<open>\<open>cur\<close> is the line read so far; \<open>\r\n\<close> is one boundary\<close>
  "splitlines_from cur [] = (if cur = [] then [] else [cur])"
| "splitlines_from cur [c] = (if is_linebreak c then [cur] else [cur @ [c]])"
| "splitlines_from cur (c # d # cs) =
     (if c = 13 \<and> d = 10 then cur # splitlines_from [] cs
      else if is_linebreak c then cur # splitlines_from [] (d # cs)
      else splitlines_from (cur @ [c]) (d # cs))"

definition splitlines :: "ustr \<Rightarrow> ustr list" where
  "splitlines s = splitlines_from [] s"

fun join_nl :: "ustr list \<Rightarrow> ustr" where
  \<comment> \<open>\<open>"\n".join(ls)\<close>\<close>
  "join_nl [] = []"
| "join_nl [l] = l"
| "join_nl (l # ls) = l @ [10] @ join_nl ls"

function sub_hyphen :: "ustr \<Rightarrow> ustr" where
  \<comment> \<open>\<open>re.sub(r"\s*-\s+", "-", s)\<close>: a match starts where, after the white space there, a
      hyphen and at least one white space follow\<close>
  "sub_hyphen [] = []"
| "sub_hyphen (c # cs) =
     (case dropWhile is_space (c # cs) of
        d # e # r \<Rightarrow>
          if d = 45 \<and> is_space e then 45 # sub_hyphen (dropWhile is_space r)
          else c # sub_hyphen cs
      | _ \<Rightarrow> c # sub_hyphen cs)"
  by pat_completeness auto
termination
proof (relation "measure length")
  fix c :: nat and cs x21 x22 x21a x22a :: "nat list" and d e :: nat
  show "wf (measure length)" by simp
  fix r :: "nat list"
  assume h: "dropWhile is_space (c # cs) = d # x22" "x22 = e # r"
  have "length (dropWhile is_space r) \<le> length r"
    by (rule length_dropWhile_le)
  moreover have "length (d # e # r) \<le> length (c # cs)"
    using h length_dropWhile_le [of is_space "c # cs"] by simp
  ultimately show "(dropWhile is_space r, c # cs) \<in> measure length" by simp
qed simp_all

definition clean_segment :: "ustr \<Rightarrow> ustr" where
  \<comment> \<open>the clean-up of a segment (source lines 89 to 92 and 117 to 120)\<close>
  "clean_segment segment =
     (let seg = join_nl (filter (\<lambda>l. l \<noteq> []) (map strip (splitlines segment)));
          seg = strip (sub_ws seg);
          seg = filter (\<lambda>c. c \<noteq> 173) seg
      in sub_hyphen seg)"

definition match_doc_id_line :: "ucd \<Rightarrow> ustr \<Rightarrow> bool" where
  \<comment> \<open>\<open>DOC_ID_LINE.match(t)\<close>, \<open>^\s*\d{1,3}\.\d{1,3}\.\d{1,3}\s*$\<close>\<close>
  "match_doc_id_line U t \<longleftrightarrow>
     [e. i1 \<leftarrow> star is_space t 0, i2 \<leftarrow> upto3 (is_digit U) t i1, i3 \<leftarrow> one (\<lambda>c. c = 46) t i2,
         i4 \<leftarrow> upto3 (is_digit U) t i3, i5 \<leftarrow> one (\<lambda>c. c = 46) t i4,
         i6 \<leftarrow> upto3 (is_digit U) t i5, i7 \<leftarrow> star is_space t i6, e \<leftarrow> eos t i7] \<noteq> []"

definition startswith :: "ustr \<Rightarrow> ustr \<Rightarrow> bool" where
  "startswith s p \<longleftrightarrow> take (length p) s = p"

definition title_line_ok :: "ucd \<Rightarrow> ustr \<Rightarrow> bool" where
  \<comment> \<open>the test of source line 127 on a stripped line\<close>
  "title_line_ok U t \<longleftrightarrow>
     t \<noteq> [] \<and> \<not> match_doc_id_line U t \<and> \<not> startswith (lower U t) (u ''texte original'')"

definition title_between_markers_fallback :: "ucd \<Rightarrow> ustr \<Rightarrow> ustr" where
  "title_between_markers_fallback U raw_page_text =
     (let seg = clean_segment (case marker_segment U raw_page_text of Some x \<Rightarrow> x | None \<Rightarrow> [])
      in if seg \<noteq> [] then seg
         else case find (title_line_ok U) (map strip (splitlines raw_page_text)) of
                Some t \<Rightarrow> t
              | None \<Rightarrow> u ''Titre inconnu'')"

definition guess_doc_title_from_first_page :: "ucd \<Rightarrow> ustr list \<Rightarrow> ustr \<Rightarrow> ustr" where
  \<comment> \<open>\<open>lines\<close>: the texts of the lines of the upper half of the page, stripped, not empty
      and sorted by height, as source lines 48 to 69 collect them from the layout;
      \<open>page_text\<close>: \<open>page.get_text() or ""\<close>\<close>
  "guess_doc_title_from_first_page U lines page_text =
     (if lines = [] then title_between_markers_fallback U page_text
      else
        let top_text = join_nl lines in
        case marker_segment U top_text of
          None \<Rightarrow> title_between_markers_fallback U page_text
        | Some segment \<Rightarrow>
            let seg = clean_segment segment in
            if seg \<noteq> [] then seg else title_between_markers_fallback U page_text)"

section \<open>neo4j\_fix\_docids\_titles.py: reconciling identities\<close>

record article_ref =
  doc_id :: "ustr option"
  article_number :: ustr

datatype target = Skip | Target ustr ustr

definition old_doc_ids :: "article_ref list \<Rightarrow> ustr list" where
  \<comment> \<open>\<open>[a["doc_id"] for a in arts if a.get("doc_id")]\<close>\<close>
  "old_doc_ids arts = [d. a \<leftarrow> arts, d \<leftarrow> (case doc_id a of Some x \<Rightarrow> [x] | None \<Rightarrow> []), d \<noteq> []]"

definition reconcile_target :: "ustr option \<times> ustr option \<Rightarrow> article_ref list \<Rightarrow> ustr \<Rightarrow> target" where
  \<comment> \<open>\<open>main\<close>, source lines 219 to 232, for one group: the result of
      \<open>probe_pdf_first_page\<close>, the articles of the group, the stem of the file name\<close>
  "reconcile_target probe arts stem =
     (case probe of (new_doc_id, doc_title) \<Rightarrow>
        if \<not> truthy new_doc_id \<and> \<not> truthy doc_title then Skip
        else
          let new_doc_id' =
                (if \<not> truthy new_doc_id
                 then (case old_doc_ids arts of o1 # _ \<Rightarrow> o1 | [] \<Rightarrow> stem)
                 else (case new_doc_id of Some d \<Rightarrow> d | None \<Rightarrow> []));
              doc_title' =
                (if \<not> truthy doc_title then u ''Titre inconnu''
                 else (case doc_title of Some t \<Rightarrow> t | None \<Rightarrow> []))
          in Target new_doc_id' doc_title')"

definition probe_pdf_first_page :: "ucd \<Rightarrow> (ustr list \<times> ustr) option \<Rightarrow> ustr option \<times> ustr option" where
  \<comment> \<open>the first page as the upper-half lines and the page text; \<open>None\<close> for a file that
      is missing, has no page or cannot be read. The two detectors of this script are
      the ones of \<open>pdf2articles.py\<close>, line for line.\<close>
  "probe_pdf_first_page U page =
     (case page of
        None \<Rightarrow> (None, None)
      | Some (lines, page_text) \<Rightarrow>
          (guess_doc_id_from_first_page U page_text,
           Some (guess_doc_title_from_first_page U lines page_text)))"

text \<open>
  The Document nodes of the graph, by \<open>doc_id\<close>, with their \<open>title\<close> property (\<open>None\<close>
  when the node has none). Step 1 of \<open>CYPHER_UPDATE_GROUP\<close> is the only place where the
  query writes a Document's title.
\<close>

type_synonym documents = "ustr \<rightharpoonup> ustr option"

definition coalesce :: "'a option \<Rightarrow> 'a option \<Rightarrow> 'a option" where
  "coalesce a b = (case a of Some x \<Rightarrow> Some x | None \<Rightarrow> b)"

definition merge_document :: "documents \<Rightarrow> ustr \<Rightarrow> ustr option \<Rightarrow> documents" where
  \<comment> \<open>\<open>MERGE (d2:Document {doc_id: $newDocId}) ON CREATE SET d2.title = $docTitle
      ON MATCH SET d2.title = coalesce($docTitle, d2.title)\<close>\<close>
  "merge_document docs newDocId docTitle =
     (case docs newDocId of
        None \<Rightarrow> docs(newDocId \<mapsto> docTitle)
      | Some old_title \<Rightarrow> docs(newDocId \<mapsto> coalesce docTitle old_title))"

definition commit_group :: "ucd \<Rightarrow> documents \<Rightarrow> (ustr list \<times> ustr) option \<Rightarrow> article_ref list \<Rightarrow> ustr \<Rightarrow> documents" where
  \<comment> \<open>one group of \<open>main\<close> under \<open>--commit\<close>, as far as Document titles go: the query runs
      with \<open>$docTitle\<close> bound to the string \<open>doc_title\<close>\<close>
  "commit_group U docs page arts stem =
     (case reconcile_target (probe_pdf_first_page U page) arts stem of
        Skip \<Rightarrow> docs
      | Target new_doc_id doc_title \<Rightarrow> merge_document docs new_doc_id (Some doc_title))"

section \<open>A sample of the character database\<close>

text \<open>
  A fragment of the character database, enough for texts made of ASCII characters and
  Arabic-Indic digits (U+0660 to U+0669, a block of decimal digits): on such texts
  normalisation and lower-casing do what they do on ASCII.
\<close>

definition ucd_sample :: ucd where
  "ucd_sample = \<lparr> nd_zeros = [1632], alnum_hi = (\<lambda>c. 1632 \<le> c \<and> c \<le> 1641),
                  nfkd_nomark = (\<lambda>s. s), lower = map lower_ascii \<rparr>"

text \<open>
  Another fragment, for texts made of ASCII characters and the ligature U+FB01 (one
  character, the letters f and i joined, a lower-case letter): compatibility
  decomposition replaces the ligature by the two letters \<open>f\<close> and \<open>i\<close>, so the normalised
  text is longer than the text.
\<close>

definition ucd_ligature :: ucd where
  "ucd_ligature = \<lparr> nd_zeros = [], alnum_hi = (\<lambda>c. c = 64257),
                    nfkd_nomark = (\<lambda>s. concat (map (\<lambda>c. if c = 64257 then [102, 105] else [c]) s)),
                    lower = map lower_ascii \<rparr>"

section \<open>Evaluation on concrete inputs\<close>

text \<open>
  The definitions unfold by rewriting. The congruence rules make the rewriter evaluate the
  list or pair a function is applied to before it looks into the function.
\<close>

lemmas char_defs = is_space_def is_ascii_digit_def is_ascii_upper_def is_ascii_lower_def
  is_ascii_letter_def is_ascii_alnum_def lower_ascii_def upper_ascii_def ci_lit_def
  is_digit_def digit_val_def hi_zero_def is_word_def sup_digit_def roman_class_def
  is_roman_letter_def letter_ci_def is_linebreak_def

lemmas norm_defs = normalize_article_number_def match_art_prefix_def tidy_prefix_def
  match_arabic_def try_arabic_def match_roman_def try_roman_def match_tail_end_def
  valid_tail_def chop_newline_def normalize_tokens_def fullmatch_digits3_def
  fullmatch_letter_def is_roman_def roman_group_def rep_upto_def int_of_digits_def
  str_nat.simps str_int_def strip_def translate_sup_def u_def Let_def

lemmas re_defs = star_def plus_def upto3_def one_def opt_def word_at_def wb_def bol_def eol_def
  eos_def first_match_def search_from_def slice_def u_def Let_def

lemmas title_defs = guess_doc_title_from_first_page_def title_between_markers_fallback_def
  marker_segment_def match_start_pat_def match_end_pat_def clean_segment_def splitlines_def
  strip_def match_doc_id_line_def startswith_def title_line_ok_def

lemma map_weak_cong: "xs = ys \<Longrightarrow> map f xs = map f ys"
  by simp

lemma first_some_weak_cong: "xs = ys \<Longrightarrow> first_some f xs = first_some f ys"
  by simp

lemma find_weak_cong: "xs = ys \<Longrightarrow> find f xs = find f ys"
  by simp

lemma filter_weak_cong: "xs = ys \<Longrightarrow> filter f xs = filter f ys"
  by simp

lemmas ev_cong = map_weak_cong first_some_weak_cong find_weak_cong filter_weak_cong
  prod.case_cong_weak

text \<open>
  One step of \<open>sub_hyphen\<close> with the test in front, so that only the branch taken is
  unfolded.
\<close>

lemma sub_hyphen_step:
  "sub_hyphen (c # cs) =
     (if (case dropWhile is_space (c # cs) of d # e # r \<Rightarrow> d = 45 \<and> is_space e | _ \<Rightarrow> False)
      then 45 # sub_hyphen (dropWhile is_space (drop 2 (dropWhile is_space (c # cs))))
      else c # sub_hyphen cs)"
  by (cases "dropWhile is_space (c # cs)" rule: list.exhaust; simp split: list.split)

section \<open>Article numbers: the examples of the documentation\<close>

lemma normalize_documented_examples:
  "normalize_article_number U (u ''Art. 70a'' @ [179]) 2 = Inr (u ''Art. 70a'', Some (u ''3''))"
  "normalize_article_number U (u ''Art. IV'' @ [178]) 2 = Inr (u ''Art. IV'', Some (u ''2''))"
  "normalize_article_number U (u ''Art.IV12'') 2 = Inr (u ''Art. IV'', Some (u ''12''))"
  "normalize_article_number U (u ''Art. 70a'') 2 = Inr (u ''Art. 70a'', None)"
  "normalize_article_number U (u ''art  70A 12'') 2 = Inr (u ''Art. 70a'', Some (u ''12''))"
  by (simp_all add: norm_defs char_defs cong: ev_cong)

text \<open>
  C2. The first example of the documentation, \<open>"Art.7064"\<close> with \<open>tail_max = 2\<close>, does not
  give the number \<open>"Art. 70"\<close> and the footnote \<open>"64"\<close>: the greedy \<open>\d{1,3}\<close> takes three
  digits, so the code returns the number \<open>"Art. 706"\<close> and the footnote \<open>"4"\<close>. The four
  other examples hold (\<open>normalize_documented_examples\<close>).
\<close>

theorem normalize_fused_digits_greedy:
  "normalize_article_number U (u ''Art.7064'') 2 = Inr (u ''Art. 706'', Some (u ''4''))"
  by (simp add: norm_defs char_defs cong: ev_cong)

section \<open>Page ranges\<close>










section \<open>Reconciling identities\<close>

text \<open>
  C5. With a title but no document id from the first page, the new \<open>doc_id\<close> is the first
  \<open>doc_id\<close> among the articles of the file, not the most frequent one: here \<open>A\<close> occurs once
  and \<open>B\<close> twice, and the target is \<open>A\<close>.
\<close>

theorem reconcile_target_takes_first_doc_id:
  "reconcile_target (None, Some (u ''T''))
     [\<lparr>doc_id = Some (u ''A''), article_number = u ''Art. 1''\<rparr>,
      \<lparr>doc_id = Some (u ''B''), article_number = u ''Art. 2''\<rparr>,
      \<lparr>doc_id = Some (u ''B''), article_number = u ''Art. 3''\<rparr>] (u ''f'')
   = Target (u ''A'') (u ''T'') \<and>
   old_doc_ids
     [\<lparr>doc_id = Some (u ''A''), article_number = u ''Art. 1''\<rparr>,
      \<lparr>doc_id = Some (u ''B''), article_number = u ''Art. 2''\<rparr>,
      \<lparr>doc_id = Some (u ''B''), article_number = u ''Art. 3''\<rparr>]
   = [u ''A'', u ''B'', u ''B'']"
  by (simp add: reconcile_target_def old_doc_ids_def truthy_def u_def)

text \<open>
  C6. A first page that holds nothing but the document id line makes the title detector
  return the placeholder. The commit then binds \<open>$docTitle\<close> to the placeholder, which is
  not null, so \<open>coalesce\<close> keeps nothing of the stored title: the Document \<open>0.1.2\<close>, whose
  title was \<open>Accord\<close>, ends with the title \<open>Titre inconnu\<close>.
\<close>

theorem commit_group_overwrites_title_with_placeholder:
  "probe_pdf_first_page ucd_sample (Some ([], u ''0.1.2'')) = (Some (u ''0.1.2''), Some (u ''Titre inconnu'')) \<and>
   commit_group ucd_sample (Map.empty(u ''0.1.2'' \<mapsto> Some (u ''Accord'')))
     (Some ([], u ''0.1.2'')) [\<lparr>doc_id = Some (u ''0.1.2''), article_number = u ''Art. 1''\<rparr>]
     (u ''accord'') (u ''0.1.2'')
   = Some (Some (u ''Titre inconnu''))"
proof -
  have p: "probe_pdf_first_page ucd_sample (Some ([], u ''0.1.2''))
             = (Some (u ''0.1.2''), Some (u ''Titre inconnu''))"
    by (simp add: probe_pdf_first_page_def guess_doc_id_from_first_page_def match_doc_id_def
          title_defs ucd_sample_def re_defs char_defs cong: ev_cong)
  show ?thesis
    unfolding commit_group_def p
    by (simp add: p reconcile_target_def truthy_def merge_document_def coalesce_def u_def)
qed

section \<open>Document title: the fallback\<close>

lemma placeholder_not_empty: "u ''Titre inconnu'' \<noteq> []"
  by (simp add: u_def)

lemma title_fallback_not_empty: "title_between_markers_fallback U raw \<noteq> []"
  by (auto simp: title_between_markers_fallback_def Let_def title_line_ok_def placeholder_not_empty
        find_Some_iff split: option.splits)

lemma title_detector_not_empty:
  "title_between_markers_fallback U raw \<noteq> [] \<and> guess_doc_title_from_first_page U lines raw \<noteq> []"
  by (auto simp: guess_doc_title_from_first_page_def Let_def title_fallback_not_empty
        split: option.splits)

text \<open>
  C9. The detector is total and its result is never empty (\<open>title_detector_not_empty\<close>),
  but the line it falls back to can begin with the start marker. The fallback skips a
  line whose lower-cased text starts with the literal \<open>texte original\<close>, one space between
  the words, while the start marker of the same function is \<open>texte\s+original\<close>. On the
  page \<open>Texte  original\<close>, \<open>Foo\<close> (two spaces in the first line) the start marker is found
  at the indices 0 to 15, no end marker follows, and the title returned is the marker
  line \<open>Texte  original\<close>, not \<open>Foo\<close>; with one space the marker line is skipped and the
  title is \<open>Foo\<close>, also after a document id line and with white space around the lines.
\<close>

theorem title_fallback_returns_marker_line:
  "search_from match_start_pat (nfkd_nomark ucd_sample (u ''Texte  original'' @ [10] @ u ''Foo'')) 0
     = Some (0, 15) \<and>
   title_between_markers_fallback ucd_sample (u ''Texte  original'' @ [10] @ u ''Foo'')
     = u ''Texte  original'' \<and>
   title_between_markers_fallback ucd_sample (u ''Texte original'' @ [10] @ u ''Foo'') = u ''Foo'' \<and>
   title_between_markers_fallback ucd_sample
       (u ''0.1.2'' @ [13, 10] @ u '' Texte original'' @ [10] @ u ''  Foo '') = u ''Foo''"
proof -
  have a: "search_from match_start_pat (nfkd_nomark ucd_sample (u ''Texte  original'' @ [10] @ u ''Foo'')) 0
             = Some (0, 15)"
    by (simp add: title_defs ucd_sample_def re_defs char_defs cong: ev_cong)
  have b: "title_between_markers_fallback ucd_sample (u ''Texte  original'' @ [10] @ u ''Foo'')
             = u ''Texte  original''"
    by (simp add: title_defs ucd_sample_def re_defs char_defs cong: ev_cong)
  have c: "title_between_markers_fallback ucd_sample (u ''Texte original'' @ [10] @ u ''Foo'') = u ''Foo''"
    by (simp add: title_defs ucd_sample_def re_defs char_defs cong: ev_cong)
  have d: "title_between_markers_fallback ucd_sample
       (u ''0.1.2'' @ [13, 10] @ u '' Texte original'' @ [10] @ u ''  Foo '') = u ''Foo''"
    by (simp add: title_defs ucd_sample_def re_defs char_defs cong: ev_cong)
  from a b c d show ?thesis by simp
qed

section \<open>Facts about the pieces of a pattern\<close>

lemma takeWhile_drop_le: "i + length (takeWhile P (drop i s)) \<le> max i (length s)"
proof -
  have "length (takeWhile P (drop i s)) \<le> length (drop i s)" by (rule length_takeWhile_le)
  then show ?thesis by simp
qed

lemma shift_upt_mem: "e \<in> (\<lambda>k. i + k) ` set [a..<b] \<longleftrightarrow> i + a \<le> e \<and> e < i + b"
proof
  assume "e \<in> (\<lambda>k. i + k) ` set [a..<b]"
  then show "i + a \<le> e \<and> e < i + b" by auto
next
  assume h: "i + a \<le> e \<and> e < i + b"
  then have "e = i + (e - i)" "e - i \<in> set [a..<b]" by auto
  then show "e \<in> (\<lambda>k. i + k) ` set [a..<b]" by (rule image_eqI)
qed

lemma star_mem: "e \<in> set (star P s i) \<longleftrightarrow> i \<le> e \<and> e \<le> i + length (takeWhile P (drop i s))"
proof -
  have "set (star P s i) = (\<lambda>k. i + k) ` set [0..<Suc (length (takeWhile P (drop i s)))]"
    by (simp add: star_def del: upt_Suc)
  then show ?thesis by (simp only: shift_upt_mem) auto
qed

lemma plus_mem: "e \<in> set (plus P s i) \<longleftrightarrow> i < e \<and> e \<le> i + length (takeWhile P (drop i s))"
proof -
  have "set (plus P s i) = (\<lambda>k. i + k) ` set [1..<Suc (length (takeWhile P (drop i s)))]"
    by (simp add: plus_def del: upt_Suc)
  then show ?thesis by (simp only: shift_upt_mem) auto
qed

lemma upto3_mem:
  "e \<in> set (upto3 P s i) \<longleftrightarrow> i < e \<and> e \<le> i + 3 \<and> e \<le> i + length (takeWhile P (drop i s))"
proof -
  have "set (upto3 P s i) = (\<lambda>k. i + k) ` set [1..<Suc (min 3 (length (takeWhile P (drop i s))))]"
    by (simp add: upto3_def del: upt_Suc)
  then show ?thesis by (simp only: shift_upt_mem) auto
qed

lemma one_mem: "e \<in> set (one P s i) \<longleftrightarrow> e = Suc i \<and> i < length s \<and> P (s ! i)"
  by (auto simp: one_def)

lemma opt_mem: "e \<in> set (opt m s i) \<longleftrightarrow> e \<in> set (m s i) \<or> e = i"
  by (auto simp: opt_def)

lemma lits_ci_mem: "e \<in> set (lits_ci ps s i) \<Longrightarrow> e = i + length ps \<and> e \<le> length s \<or> (ps = [] \<and> e = i)"
  by (induction ps s i rule: lits_ci.induct) (auto split: if_splits)

lemma wb_mem: "e \<in> set (wb U s i) \<longleftrightarrow> e = i \<and> ((0 < i \<and> word_at U s (i - 1)) \<noteq> word_at U s i)"
  by (auto simp: wb_def)

lemma bol_mem: "e \<in> set (bol s i) \<Longrightarrow> e = i"
  by (auto simp: bol_def split: if_splits)

lemma eol_mem: "e \<in> set (eol s i) \<Longrightarrow> e = i"
  by (auto simp: eol_def split: if_splits)

lemma first_match_Some: "first_match xs = Some x \<Longrightarrow> x \<in> set xs"
  by (cases xs) (auto simp: first_match_def)

lemma first_match_None: "first_match xs = None \<longleftrightarrow> xs = []"
  by (cases xs) (auto simp: first_match_def)

lemma star_bound: "e \<in> set (star P s i) \<Longrightarrow> i \<le> length s \<Longrightarrow> i \<le> e \<and> e \<le> length s"
  using takeWhile_drop_le [of i P s] by (auto simp: star_mem)

lemma plus_bound: "e \<in> set (plus P s i) \<Longrightarrow> i \<le> length s \<Longrightarrow> i < e \<and> e \<le> length s"
  using takeWhile_drop_le [of i P s] by (auto simp: plus_mem)

section \<open>Article segments\<close>

lemma match_heading_bounds:
  assumes "match_heading U s i = Some m"
  shows "m_start m = i \<and> i < m_end m \<and> m_end m \<le> length s"
proof -
  from assms obtain i0 i1 i2 i3 g0 g1 g2 e0 e where
    h: "i0 \<in> set (bol s i)" "i1 \<in> set (star is_space s i0)" "i2 \<in> set (lits_ci (u ''Art'') s i1)"
       "i3 \<in> set (one (\<lambda>c. c = 46) s i2)" "g0 \<in> set (star is_space s i3)"
       "g1 \<in> set (plus (is_digit U) s g0)" "g2 \<in> set (opt (one letter_ci) s g1)"
       "e0 \<in> set (star is_space s g2)" "e \<in> set (eol s e0)"
       "m = \<lparr> m_start = i, m_end = e, m_group1 = slice s g0 g2 \<rparr>"
    unfolding match_heading_def by (auto dest!: first_match_Some)
  have a: "i0 = i" using h(1) by (rule bol_mem)
  have b: "i0 \<le> i1" using h(2) by (simp add: star_mem)
  have c: "i2 = i1 + 3 \<and> i2 \<le> length s" using lits_ci_mem [OF h(3)] by (simp add: u_def)
  have d: "i3 = Suc i2 \<and> i3 \<le> length s" using h(4) by (auto simp: one_mem)
  have e: "i3 \<le> g0 \<and> g0 \<le> length s" using star_bound [OF h(5)] d by simp
  have f: "g0 < g1 \<and> g1 \<le> length s" using plus_bound [OF h(6)] e by simp
  have g: "g1 \<le> g2 \<and> g2 \<le> length s" using h(7) f by (auto simp: opt_mem one_mem)
  have k: "g2 \<le> e0 \<and> e0 \<le> length s" using star_bound [OF h(8)] g by simp
  have l: "e = e0" using h(9) by (rule eol_mem)
  show ?thesis using a b c d e f g k l h(10) by simp
qed

lemma finditer_heading_props:
  "\<forall>m \<in> set (finditer_heading U s pos).
      pos \<le> m_start m \<and> m_start m < m_end m \<and> m_end m \<le> length s \<and>
      match_heading U s (m_start m) = Some m"
proof (induction U s pos rule: finditer_heading.induct)
  case (1 U s pos)
  show ?case
  proof (cases "length s < pos")
    case True
    then show ?thesis by (simp add: finditer_heading.simps)
  next
    case False
    show ?thesis
    proof (cases "match_heading U s pos")
      case None
      with False 1(1) show ?thesis
        by (subst finditer_heading.simps) (auto simp: Suc_leD)
    next
      case (Some m)
      from match_heading_bounds [OF Some] have b: "m_start m = pos" "pos < m_end m" "m_end m \<le> length s"
        by auto
      from 1(2) [OF False Some] b
      have "\<forall>m' \<in> set (finditer_heading U s (m_end m)).
              m_end m \<le> m_start m' \<and> m_start m' < m_end m' \<and> m_end m' \<le> length s \<and>
              match_heading U s (m_start m') = Some m'" by simp
      with False Some b show ?thesis
        by (subst finditer_heading.simps) auto
    qed
  qed
qed

lemma finditer_heading_sorted:
  "sorted_wrt (\<lambda>a b. m_end a \<le> m_start b) (finditer_heading U s pos)"
proof (induction U s pos rule: finditer_heading.induct)
  case (1 U s pos)
  show ?case
  proof (cases "length s < pos")
    case True
    then show ?thesis by (simp add: finditer_heading.simps)
  next
    case False
    show ?thesis
    proof (cases "match_heading U s pos")
      case None
      with False 1(1) show ?thesis
        by (subst finditer_heading.simps) auto
    next
      case (Some m)
      from match_heading_bounds [OF Some] have b: "m_start m = pos" "pos < m_end m" "m_end m \<le> length s"
        by auto
      from 1(2) [OF False Some] b
      have "sorted_wrt (\<lambda>a b. m_end a \<le> m_start b) (finditer_heading U s (m_end m))" by simp
      moreover have "\<forall>m' \<in> set (finditer_heading U s (m_end m)). m_end m \<le> m_start m'"
        using finditer_heading_props [of U s "m_end m"] by blast
      ultimately show ?thesis using False Some b
        by (subst finditer_heading.simps) auto
    qed
  qed
qed

lemma slice_drop: "a \<le> b \<Longrightarrow> slice t a b @ drop b t = drop a t"
proof -
  assume "a \<le> b"
  then have "drop b t = drop (b - a) (drop a t)" by simp
  then show ?thesis unfolding slice_def by (metis append_take_drop_id)
qed

lemma tile_from_first:
  assumes "xs \<noteq> []" "sorted xs" "\<forall>x \<in> set xs. x \<le> length t"
  shows "concat (map (\<lambda>k. slice t (xs ! k) (if Suc k < length xs then xs ! Suc k else length t))
                  [0..<length xs]) = drop (hd xs) t"
  using assms
proof (induction xs)
  case Nil
  then show ?case by simp
next
  case (Cons x xs)
  have upt: "[0..<length (x # xs)] = 0 # map Suc [0..<length xs]"
    by (simp add: upt_conv_Cons map_Suc_upt del: upt_Suc)
  show ?case
  proof (cases "xs = []")
    case True
    with Cons.prems show ?thesis by (simp add: slice_def)
  next
    case False
    have ih: "concat (map (\<lambda>k. slice t (xs ! k) (if Suc k < length xs then xs ! Suc k else length t))
                  [0..<length xs]) = drop (hd xs) t"
      using Cons.IH False Cons.prems by simp
    have hd: "xs ! 0 = hd xs" using False by (simp add: hd_conv_nth)
    have le: "x \<le> hd xs" using Cons.prems(2) False by (cases xs) auto
    have "concat (map (\<lambda>k. slice t ((x # xs) ! k)
                      (if Suc k < length (x # xs) then (x # xs) ! Suc k else length t))
                  [0..<length (x # xs)])
          = slice t x (hd xs) @ drop (hd xs) t"
      unfolding upt using False ih by (simp add: comp_def hd cong del: if_weak_cong)
    then show ?thesis using slice_drop [OF le] by simp
  qed
qed

lemma finditer_heading_covers:
  "pos \<le> q \<Longrightarrow> match_heading U s q \<noteq> None \<Longrightarrow>
     \<exists>m \<in> set (finditer_heading U s pos). m_start m \<le> q \<and> q < m_end m"
proof (induction U s pos rule: finditer_heading.induct)
  case (1 U s pos)
  from 1(4) obtain mq where mq: "match_heading U s q = Some mq" by auto
  from match_heading_bounds [OF mq] have q: "q < length s" by simp
  with 1(3) have False: "\<not> length s < pos" by simp
  show ?case
  proof (cases "match_heading U s pos")
    case None
    with mq have "q \<noteq> pos" by auto
    with 1(3) have "Suc pos \<le> q" by simp
    from 1(1) [OF False None this 1(4)] False None show ?thesis
      by (subst finditer_heading.simps) simp
  next
    case (Some m)
    from match_heading_bounds [OF Some]
    have b: "m_start m = pos" "pos < m_end m" "m_end m \<le> length s" by auto
    have unf: "finditer_heading U s pos = m # finditer_heading U s (m_end m)"
      using False Some b by (subst finditer_heading.simps) simp
    show ?thesis
    proof (cases "q < m_end m")
      case True
      with b 1(3) show ?thesis unfolding unf by auto
    next
      case False
      then have "(if pos < m_end m then m_end m else Suc pos) \<le> q" using b by simp
      from 1(2) [OF \<open>\<not> length s < pos\<close> Some this 1(4)] b show ?thesis
        unfolding unf by auto
    qed
  qed
qed

lemma finditer_heading_first:
  "finditer_heading U s pos = m # ms \<Longrightarrow> pos \<le> j \<Longrightarrow> j < m_start m \<Longrightarrow>
     match_heading U s j = None"
proof (induction U s pos rule: finditer_heading.induct)
  case (1 U s pos)
  have False: "\<not> length s < pos"
    using 1(3) by (subst (asm) finditer_heading.simps) (auto split: if_splits)
  show ?case
  proof (cases "match_heading U s pos")
    case None
    have unf: "finditer_heading U s pos = finditer_heading U s (Suc pos)"
      using False None by (subst finditer_heading.simps) simp
    show ?thesis
    proof (cases "j = pos")
      case True
      with None show ?thesis by simp
    next
      case False
      with 1(4) have "Suc pos \<le> j" by simp
      from 1(1) [OF \<open>\<not> length s < pos\<close> None 1(3) [unfolded unf] this 1(5)] show ?thesis .
    qed
  next
    case (Some m0)
    from match_heading_bounds [OF Some] have b: "m_start m0 = pos" "pos < m_end m0" by auto
    have "finditer_heading U s pos = m0 # finditer_heading U s (m_end m0)"
      using False Some b by (subst finditer_heading.simps) simp
    with 1(3) have "m = m0" by simp
    with b 1(4,5) show ?thesis by simp
  qed
qed

text \<open>
  C3, as amended. When the heading pattern occurs somewhere in the text, there are spans,
  and they tile the text from the start of the first heading to the end of the document:
  the first span starts at the leftmost position where the pattern matches; each span
  starts where a heading matches, carries that heading's number, holds that heading, is
  not empty and ends where the next span starts (the last one at the end of the text);
  every position where the pattern matches is the start of a span or lies inside the
  heading that starts one; and the spans put together are the text without what stands
  before the first heading.
\<close>

theorem segments_tile_from_first_heading:
  assumes "match_heading U full_text q \<noteq> None"
  shows "let segs = find_articles_segments U full_text; first = fst (snd (hd segs)) in
           segs \<noteq> [] \<and>
           first \<le> q \<and> (\<forall>j < first. match_heading U full_text j = None) \<and>
           concat (map (\<lambda>(num, a, b). slice full_text a b) segs) = drop first full_text \<and>
           (\<forall>k < length segs.
              case segs ! k of (num, a, b) \<Rightarrow>
                a < b \<and> b \<le> length full_text \<and>
                (\<exists>m. match_heading U full_text a = Some m \<and> num = m_group1 m \<and> m_end m \<le> b) \<and>
                b = (if Suc k < length segs then fst (snd (segs ! Suc k)) else length full_text)) \<and>
           (\<exists>k < length segs.
              case segs ! k of (num, a, b) \<Rightarrow>
                a \<le> q \<and> (\<exists>m. match_heading U full_text a = Some m \<and> q < m_end m))"
proof -
  let ?ms = "finditer_heading U full_text 0"
  let ?xs = "map m_start ?ms"
  define segs where "segs = find_articles_segments U full_text"
  have segs: "segs = map (\<lambda>idx. (m_group1 (?ms ! idx), m_start (?ms ! idx),
                  if idx + 1 < length ?ms then m_start (?ms ! (idx + 1)) else length full_text))
                [0..<length ?ms]"
    by (simp add: segs_def find_articles_segments_def Let_def)
  have len: "length segs = length ?ms" by (simp add: segs)
  from finditer_heading_covers [of 0 q U full_text] assms
  obtain mq where mq: "mq \<in> set ?ms" "m_start mq \<le> q" "q < m_end mq" by auto
  then have ne: "?ms \<noteq> []" by auto
  then have sne: "segs \<noteq> []" using len by auto
  have props: "\<forall>m \<in> set ?ms. m_start m < m_end m \<and> m_end m \<le> length full_text \<and>
                 match_heading U full_text (m_start m) = Some m"
    using finditer_heading_props [of U full_text 0] by blast
  have chain: "sorted_wrt (\<lambda>a b. m_end a \<le> m_start b) ?ms"
    by (rule finditer_heading_sorted)
  have lt: "m_end (?ms ! k) \<le> m_start (?ms ! Suc k)" if "Suc k < length ?ms" for k
    using chain that by (simp add: sorted_wrt_iff_nth_less)
  have sorted: "sorted ?xs"
  proof -
    have "sorted_wrt (\<lambda>a b. m_start a \<le> m_start b) ?ms"
    proof (rule sorted_wrt_mono_rel [OF _ chain])
      fix a b assume "a \<in> set ?ms" "b \<in> set ?ms" "m_end a \<le> m_start b"
      with props show "m_start a \<le> m_start b" by fastforce
    qed
    then show ?thesis by (simp add: sorted_map)
  qed
  have bound: "\<forall>x \<in> set ?xs. x \<le> length full_text"
    using props by fastforce
  have hd: "fst (snd (hd segs)) = m_start (hd ?ms)"
    using ne unfolding segs by (simp add: hd_map hd_conv_nth upt_conv_Cons del: upt_Suc)
  have hdx: "hd ?xs = m_start (hd ?ms)" using ne by (simp add: hd_map)
  obtain m0 ms0 where m0: "?ms = m0 # ms0" using ne by (cases ?ms) auto
  have before: "\<forall>j < fst (snd (hd segs)). match_heading U full_text j = None"
    using finditer_heading_first [OF m0] unfolding hd m0 by simp
  have first_le: "fst (snd (hd segs)) \<le> q"
  proof (rule ccontr)
    assume "\<not> fst (snd (hd segs)) \<le> q"
    then have "match_heading U full_text q = None" using before by simp
    with assms show False by simp
  qed
  have "concat (map (\<lambda>(num, a, b). slice full_text a b) segs)
        = concat (map (\<lambda>k. slice full_text (?xs ! k)
                          (if Suc k < length ?xs then ?xs ! Suc k else length full_text))
                   [0..<length ?xs])"
    unfolding segs
    apply (simp add: comp_def cong del: if_weak_cong)
    apply (rule arg_cong [where f = concat])
    apply (rule map_cong [OF refl])
    apply auto
    done
  also have "\<dots> = drop (hd ?xs) full_text"
    using ne sorted bound by (intro tile_from_first) auto
  finally have tile: "concat (map (\<lambda>(num, a, b). slice full_text a b) segs)
                        = drop (fst (snd (hd segs))) full_text"
    unfolding hd hdx .
  have each: "case segs ! k of (num, a, b) \<Rightarrow>
                a < b \<and> b \<le> length full_text \<and>
                (\<exists>m. match_heading U full_text a = Some m \<and> num = m_group1 m \<and> m_end m \<le> b) \<and>
                b = (if Suc k < length segs then fst (snd (segs ! Suc k)) else length full_text)"
    if k: "k < length segs" for k
  proof -
    have km: "k < length ?ms" using k len by simp
    then have mem: "?ms ! k \<in> set ?ms" by simp
    have p: "m_start (?ms ! k) < m_end (?ms ! k)" "m_end (?ms ! k) \<le> length full_text"
      "match_heading U full_text (m_start (?ms ! k)) = Some (?ms ! k)"
      using props mem by blast+
    show ?thesis
    proof (cases "Suc k < length ?ms")
      case True
      then have mem': "?ms ! Suc k \<in> set ?ms" by simp
      have "m_start (?ms ! Suc k) \<le> length full_text"
        using props mem' by fastforce
      with True km p lt [OF True] show ?thesis
        unfolding segs by simp
    next
      case False
      with km p show ?thesis unfolding segs by simp
    qed
  qed
  have cover: "\<exists>k < length segs.
                 case segs ! k of (num, a, b) \<Rightarrow>
                   a \<le> q \<and> (\<exists>m. match_heading U full_text a = Some m \<and> q < m_end m)"
  proof -
    from mq(1) obtain k where k: "k < length ?ms" "?ms ! k = mq"
      by (auto simp: in_set_conv_nth)
    have "match_heading U full_text (m_start mq) = Some mq" using props mq(1) by blast
    with k mq(2,3) have "case segs ! k of (num, a, b) \<Rightarrow>
                   a \<le> q \<and> (\<exists>m. match_heading U full_text a = Some m \<and> q < m_end m)"
      unfolding segs by simp
    with k(1) len show ?thesis by auto
  qed
  from sne first_le before tile each cover show ?thesis
    unfolding segs_def [symmetric] Let_def by blast
qed

lemmas seg_defs = find_articles_segments_def finditer_heading.simps match_heading_def

theorem segments_tile_from_first_heading_witness:
  "match_heading ucd_sample
     (u ''x'' @ [10] @ u ''Art. 1'' @ [10] @ u ''foo'' @ [10] @ u ''art. 2b'' @ [10] @ u ''y'') 13 \<noteq> None \<and>
   find_articles_segments ucd_sample
     (u ''x'' @ [10] @ u ''Art. 1'' @ [10] @ u ''foo'' @ [10] @ u ''art. 2b'' @ [10] @ u ''y'')
     = [(u ''1'', 2, 13), (u ''2b'', 13, 22)] \<and>
   concat (map (\<lambda>(num, a, b).
                  slice (u ''x'' @ [10] @ u ''Art. 1'' @ [10] @ u ''foo'' @ [10] @ u ''art. 2b'' @ [10] @ u ''y'') a b)
          [(u ''1'', 2, 13), (u ''2b'', 13, 22)])
     = u ''Art. 1'' @ [10] @ u ''foo'' @ [10] @ u ''art. 2b'' @ [10] @ u ''y'' \<and>
   match_heading ucd_sample
     (u ''x'' @ [10] @ u ''Art. 1'' @ [10] @ u ''foo'' @ [10] @ u ''art. 2b'' @ [10] @ u ''y'') 0 = None \<and>
   match_heading ucd_sample
     (u ''x'' @ [10] @ u ''Art. 1'' @ [10] @ u ''foo'' @ [10] @ u ''art. 2b'' @ [10] @ u ''y'') 1 = None"
proof -
  let ?t = "u ''x'' @ [10] @ u ''Art. 1'' @ [10] @ u ''foo'' @ [10] @ u ''art. 2b'' @ [10] @ u ''y''"
  have e: "find_articles_segments ucd_sample ?t = [(u ''1'', 2, 13), (u ''2b'', 13, 22)]"
    by (simp add: seg_defs ucd_sample_def re_defs char_defs cong: ev_cong)
  have m: "match_heading ucd_sample ?t 13 \<noteq> None"
    by (simp add: seg_defs ucd_sample_def re_defs char_defs cong: ev_cong)
  have d: "drop 2 ?t = u ''Art. 1'' @ [10] @ u ''foo'' @ [10] @ u ''art. 2b'' @ [10] @ u ''y''"
    by (simp add: u_def)
  from segments_tile_from_first_heading [OF m]
  have "concat (map (\<lambda>(num, a, b). slice ?t a b) [(u ''1'', 2, 13), (u ''2b'', 13, 22)]) = drop 2 ?t"
    and "\<forall>j < 2. match_heading ucd_sample ?t j = None"
    unfolding e Let_def by simp_all
  then have "match_heading ucd_sample ?t 0 = None" "match_heading ucd_sample ?t 1 = None"
    by simp_all
  with e m d \<open>concat (map (\<lambda>(num, a, b). slice ?t a b) [(u ''1'', 2, 13), (u ''2b'', 13, 22)]) = drop 2 ?t\<close>
  show ?thesis by simp
qed

text \<open>
  C3 as stated fails: the text before the first heading is in no span, so the spans of
  a document with a preamble do not add up to the document.
\<close>

theorem segments_drop_preamble_counterexample:
  "find_articles_segments ucd_sample (u ''x'' @ [10] @ u ''Art. 1'') = [(u ''1'', 2, 8)] \<and>
   concat (map (\<lambda>(num, a, b). slice (u ''x'' @ [10] @ u ''Art. 1'') a b)
          (find_articles_segments ucd_sample (u ''x'' @ [10] @ u ''Art. 1'')))
     = u ''Art. 1'' \<and>
   u ''Art. 1'' \<noteq> u ''x'' @ [10] @ u ''Art. 1''"
proof -
  have e: "find_articles_segments ucd_sample (u ''x'' @ [10] @ u ''Art. 1'') = [(u ''1'', 2, 8)]"
    by (simp add: seg_defs ucd_sample_def re_defs char_defs cong: ev_cong)
  show ?thesis unfolding e by (simp add: slice_def u_def)
qed

section \<open>Document id\<close>

lemma first_some_None: "first_some f xs = None \<longleftrightarrow> (\<forall>x \<in> set xs. f x = None)"
  by (induction xs) (auto split: option.splits)

lemma first_some_Some:
  "first_some f xs = Some y \<longleftrightarrow>
     (\<exists>k < length xs. f (xs ! k) = Some y \<and> (\<forall>j < k. f (xs ! j) = None))"
proof (induction xs)
  case Nil
  then show ?case by simp
next
  case (Cons x xs)
  show ?case
  proof (cases "f x")
    case None
    have "(\<exists>k < length (x # xs). f ((x # xs) ! k) = Some y \<and> (\<forall>j < k. f ((x # xs) ! j) = None))
          \<longleftrightarrow> (\<exists>k < length xs. f (xs ! k) = Some y \<and> (\<forall>j < k. f (xs ! j) = None))"
      (is "?l \<longleftrightarrow> ?r")
    proof
      assume ?l
      then obtain k where k: "k < length (x # xs)" "f ((x # xs) ! k) = Some y"
        "\<forall>j < k. f ((x # xs) ! j) = None" by blast
      with None obtain k' where k': "k = Suc k'" by (cases k) auto
      have "\<forall>j < k'. f (xs ! j) = None"
      proof (intro allI impI)
        fix j assume "j < k'"
        then have "Suc j < k" using k' by simp
        with k(3) have "f ((x # xs) ! Suc j) = None" by blast
        then show "f (xs ! j) = None" by simp
      qed
      with k k' show ?r by auto
    next
      assume ?r
      then obtain k where k: "k < length xs" "f (xs ! k) = Some y" "\<forall>j < k. f (xs ! j) = None"
        by blast
      have "\<forall>j < Suc k. f ((x # xs) ! j) = None"
      proof (intro allI impI)
        fix j assume "j < Suc k"
        then show "f ((x # xs) ! j) = None" using None k(3) by (cases j) auto
      qed
      with k show ?l by (intro exI [of _ "Suc k"]) auto
    qed
    with None Cons.IH show ?thesis by simp
  next
    case (Some z)
    have "(\<exists>k < length (x # xs). f ((x # xs) ! k) = Some y \<and> (\<forall>j < k. f ((x # xs) ! j) = None))
          \<longleftrightarrow> z = y"
    proof
      assume "\<exists>k < length (x # xs). f ((x # xs) ! k) = Some y \<and> (\<forall>j < k. f ((x # xs) ! j) = None)"
      then obtain k where k: "f ((x # xs) ! k) = Some y" "\<forall>j < k. f ((x # xs) ! j) = None" by blast
      show "z = y"
      proof (cases k)
        case 0
        with k Some show ?thesis by simp
      next
        case (Suc k')
        with k(2) have "f ((x # xs) ! 0) = None" by blast
        with Some show ?thesis by simp
      qed
    next
      assume "z = y"
      with Some show "\<exists>k < length (x # xs). f ((x # xs) ! k) = Some y \<and> (\<forall>j < k. f ((x # xs) ! j) = None)"
        by (intro exI [of _ 0]) simp
    qed
    with Some show ?thesis by auto
  qed
qed

lemma search_from_None:
  "search_from m s pos = None \<longleftrightarrow> (\<forall>i. pos \<le> i \<and> i \<le> length s \<longrightarrow> m s i = None)"
  by (auto simp: search_from_def first_some_None simp del: upt_Suc)

lemma search_from_Some:
  "search_from m s pos = Some (a, b) \<longleftrightarrow>
     pos \<le> a \<and> a \<le> length s \<and> m s a = Some b \<and> (\<forall>i. pos \<le> i \<and> i < a \<longrightarrow> m s i = None)"
proof
  assume "search_from m s pos = Some (a, b)"
  then obtain k where k: "k < Suc (length s) - pos"
      "map_option (Pair (pos + k)) (m s (pos + k)) = Some (a, b)"
      "\<forall>j < k. map_option (Pair (pos + j)) (m s (pos + j)) = None"
    unfolding search_from_def first_some_Some by (auto simp del: upt_Suc)
  from k(2) have a: "a = pos + k" "m s a = Some b" by auto
  have "\<forall>i. pos \<le> i \<and> i < a \<longrightarrow> m s i = None"
  proof (intro allI impI)
    fix i assume i: "pos \<le> i \<and> i < a"
    then have "i - pos < k" using a by auto
    with k(3) have "map_option (Pair (pos + (i - pos))) (m s (pos + (i - pos))) = None" by blast
    with i show "m s i = None" by simp
  qed
  with a k(1) show "pos \<le> a \<and> a \<le> length s \<and> m s a = Some b \<and> (\<forall>i. pos \<le> i \<and> i < a \<longrightarrow> m s i = None)"
    by auto
next
  assume h: "pos \<le> a \<and> a \<le> length s \<and> m s a = Some b \<and> (\<forall>i. pos \<le> i \<and> i < a \<longrightarrow> m s i = None)"
  have "\<exists>k < length [pos..<Suc (length s)].
          map_option (Pair ([pos..<Suc (length s)] ! k)) (m s ([pos..<Suc (length s)] ! k)) = Some (a, b) \<and>
          (\<forall>j < k. map_option (Pair ([pos..<Suc (length s)] ! j)) (m s ([pos..<Suc (length s)] ! j)) = None)"
  proof (intro exI [of _ "a - pos"] conjI allI impI)
    show "a - pos < length [pos..<Suc (length s)]" using h by auto
    then show "map_option (Pair ([pos..<Suc (length s)] ! (a - pos)))
                 (m s ([pos..<Suc (length s)] ! (a - pos))) = Some (a, b)"
      using h by (simp del: upt_Suc)
    fix j assume j: "j < a - pos"
    then have "pos + j < Suc (length s)" using h by auto
    then have "[pos..<Suc (length s)] ! j = pos + j" by (rule nth_upt)
    moreover have "m s (pos + j) = None" using h j by auto
    ultimately show "map_option (Pair ([pos..<Suc (length s)] ! j)) (m s ([pos..<Suc (length s)] ! j)) = None"
      by simp
  qed
  then show "search_from m s pos = Some (a, b)"
    unfolding search_from_def first_some_Some .
qed

lemma slice_append: "a \<le> b \<Longrightarrow> b \<le> c \<Longrightarrow> slice s a c = slice s a b @ slice s b c"
proof -
  assume h: "a \<le> b" "b \<le> c"
  then have "c - a = (b - a) + (c - b)" by simp
  then have "take (c - a) (drop a s) = take (b - a) (drop a s) @ take (c - b) (drop (b - a) (drop a s))"
    by (simp only: take_add)
  with h show ?thesis by (simp add: slice_def)
qed

lemma slice_one: "i < length s \<Longrightarrow> slice s i (Suc i) = [s ! i]"
  by (simp add: slice_def take_Suc_conv_app_nth)

lemma length_slice: "a \<le> e \<Longrightarrow> e \<le> length s \<Longrightarrow> length (slice s a e) = e - a"
  by (simp add: slice_def)

lemma slice_takeWhile_all:
  assumes "e \<le> a + length (takeWhile P (drop a s))"
  shows "list_all P (slice s a e)"
proof -
  have "take (e - a) (drop a s) = take (e - a) (takeWhile P (drop a s) @ dropWhile P (drop a s))"
    by simp
  also have "\<dots> = take (e - a) (takeWhile P (drop a s))"
    using assms by (simp del: takeWhile_dropWhile_id)
  finally have "set (slice s a e) \<subseteq> set (takeWhile P (drop a s))"
    unfolding slice_def using set_take_subset by metis
  then show ?thesis by (auto simp: list_all_iff dest: set_takeWhileD)
qed

lemma drop_split_run:
  assumes "drop a s = g @ r" "list_all P g"
  shows "a + length g \<le> a + length (takeWhile P (drop a s))" and "drop (a + length g) s = r"
proof -
  have "takeWhile P (g @ r) = g @ takeWhile P r"
    using assms(2) by (simp add: list_all_iff)
  then show "a + length g \<le> a + length (takeWhile P (drop a s))" using assms(1) by simp
  have "drop (length g) (drop a s) = r" using assms(1) by simp
  then show "drop (a + length g) s = r" by (simp add: add.commute)
qed

lemma drop_split_char:
  assumes "drop i s = c # r"
  shows "i < length s" and "s ! i = c" and "drop (Suc i) s = r"
proof -
  show l: "i < length s" using assms by (cases "i < length s") auto
  then have "drop i s = s ! i # drop (Suc i) s" by (simp add: Cons_nth_drop_Suc)
  with assms show "s ! i = c" and "drop (Suc i) s = r" by auto
qed

lemma wb_boundary: "e \<in> set (wb U s i) \<longleftrightarrow> e = i \<and> boundary U s i"
  by (auto simp: wb_def boundary_def)

lemma bex_wb: "(\<exists>x \<in> set (wb U s i). Q x) \<longleftrightarrow> boundary U s i \<and> Q i"
  by (auto simp: wb_boundary)

lemma bex_one: "(\<exists>x \<in> set (one P s i). Q x) \<longleftrightarrow> i < length s \<and> P (s ! i) \<and> Q (Suc i)"
  by (auto simp: one_mem)

lemma match_doc_id_chain:
  "e \<in> set [e. i0 \<leftarrow> wb U s i, i1 \<leftarrow> upto3 (is_digit U) s i0, i2 \<leftarrow> one (\<lambda>c. c = 46) s i1,
                i3 \<leftarrow> upto3 (is_digit U) s i2, i4 \<leftarrow> one (\<lambda>c. c = 46) s i3,
                i5 \<leftarrow> upto3 (is_digit U) s i4, e \<leftarrow> wb U s i5]
   \<longleftrightarrow> (\<exists>i1 i3. boundary U s i \<and> i1 \<in> set (upto3 (is_digit U) s i) \<and>
                 i1 < length s \<and> s ! i1 = 46 \<and> i3 \<in> set (upto3 (is_digit U) s (Suc i1)) \<and>
                 i3 < length s \<and> s ! i3 = 46 \<and> e \<in> set (upto3 (is_digit U) s (Suc i3)) \<and>
                 boundary U s e)"
  by (simp add: bex_wb bex_one wb_boundary) blast


lemma mem_not_Nil: "x \<in> set xs \<Longrightarrow> xs \<noteq> []"
  by auto

lemma match_doc_id_sound:
  assumes "match_doc_id U s a = Some e"
  shows "occurs_at U s a e"
proof -
  from assms have "e \<in> set [e. i0 \<leftarrow> wb U s a, i1 \<leftarrow> upto3 (is_digit U) s i0, i2 \<leftarrow> one (\<lambda>c. c = 46) s i1,
                i3 \<leftarrow> upto3 (is_digit U) s i2, i4 \<leftarrow> one (\<lambda>c. c = 46) s i3,
                i5 \<leftarrow> upto3 (is_digit U) s i4, e \<leftarrow> wb U s i5]"
    unfolding match_doc_id_def by (rule first_match_Some)
  then obtain i1 i3 where
    h: "boundary U s a" "i1 \<in> set (upto3 (is_digit U) s a)" "i1 < length s" "s ! i1 = 46"
       "i3 \<in> set (upto3 (is_digit U) s (Suc i1))" "i3 < length s" "s ! i3 = 46"
       "e \<in> set (upto3 (is_digit U) s (Suc i3))" "boundary U s e"
    unfolding match_doc_id_chain by blast
  let ?P = "is_digit U"
  have b1: "a < i1" "i1 \<le> a + 3" "i1 \<le> a + length (takeWhile ?P (drop a s))"
    using h(2) by (auto simp: upto3_mem)
  have b2: "Suc i1 < i3" "i3 \<le> Suc i1 + 3" "i3 \<le> Suc i1 + length (takeWhile ?P (drop (Suc i1) s))"
    using h(5) by (auto simp: upto3_mem)
  have b3: "Suc i3 < e" "e \<le> Suc i3 + 3" "e \<le> Suc i3 + length (takeWhile ?P (drop (Suc i3) s))"
    using h(8) by (auto simp: upto3_mem)
  have el: "e \<le> length s"
    using b3(3) takeWhile_drop_le [of "Suc i3" ?P s] h(6) by simp
  have "length (slice s a i1) = i1 - a"
    using b1 h(3) by (intro length_slice) auto
  then have g1: "digit_group U (slice s a i1)"
    using b1 slice_takeWhile_all [OF b1(3)] by (auto simp: digit_group_def)
  have "length (slice s (Suc i1) i3) = i3 - Suc i1"
    using b2 h(6) by (intro length_slice) auto
  then have g2: "digit_group U (slice s (Suc i1) i3)"
    using b2 slice_takeWhile_all [OF b2(3)] by (auto simp: digit_group_def)
  have "length (slice s (Suc i3) e) = e - Suc i3"
    using b3 el by (intro length_slice) auto
  then have g3: "digit_group U (slice s (Suc i3) e)"
    using b3 slice_takeWhile_all [OF b3(3)] by (auto simp: digit_group_def)
  have "slice s a e = slice s a i1 @ slice s i1 (Suc i1) @ slice s (Suc i1) i3 @
                        slice s i3 (Suc i3) @ slice s (Suc i3) e"
    using b1 b2 b3
    by (simp add: slice_append [of a i1 e] slice_append [of i1 "Suc i1" e]
          slice_append [of "Suc i1" i3 e] slice_append [of i3 "Suc i3" e])
  then have "slice s a e = slice s a i1 @ [46] @ slice s (Suc i1) i3 @ [46] @ slice s (Suc i3) e"
    using h(3,4,6,7) by (simp add: slice_one)
  with g1 g2 g3 have "dotted_numeral U (slice s a e)"
    unfolding dotted_numeral_def by blast
  with b1 b2 b3 el h(1,9) show ?thesis by (simp add: occurs_at_def)
qed


lemma match_doc_id_complete:
  assumes "occurs_at U s a e"
  shows "match_doc_id U s a \<noteq> None"
proof -
  from assms obtain g1 g2 g3 where
    d: "slice s a e = g1 @ [46] @ g2 @ [46] @ g3"
       "digit_group U g1" "digit_group U g2" "digit_group U g3"
    and ae: "a \<le> e" "e \<le> length s" and bd: "boundary U s a" "boundary U s e"
    unfolding occurs_at_def dotted_numeral_def by blast
  let ?P = "is_digit U"
  have "drop a s = take (e - a) (drop a s) @ drop (e - a) (drop a s)"
    by (simp only: append_take_drop_id)
  then have da: "drop a s = g1 @ (46 # g2 @ 46 # g3 @ drop e s)"
    using d(1) ae by (simp add: slice_def)
  have len: "e - a = length g1 + 1 + length g2 + 1 + length g3"
    using length_slice [OF ae] d(1) by simp
  define i1 where "i1 = a + length g1"
  define i3 where "i3 = Suc i1 + length g2"
  have p1: "list_all ?P g1" "list_all ?P g2" "list_all ?P g3"
    using d(2,3,4) by (simp_all add: digit_group_def)
  have l1: "1 \<le> length g1" "length g1 \<le> 3" "1 \<le> length g2" "length g2 \<le> 3"
    "1 \<le> length g3" "length g3 \<le> 3"
    using d(2,3,4) by (simp_all add: digit_group_def)
  have m1: "i1 \<in> set (upto3 ?P s a)"
    using drop_split_run(1) [OF da p1(1)] l1 by (auto simp: upto3_mem i1_def)
  have d1: "drop i1 s = 46 # g2 @ 46 # g3 @ drop e s"
    using drop_split_run(2) [OF da p1(1)] by (simp add: i1_def)
  note c1 = drop_split_char [OF d1]
  have d2: "drop (Suc i1) s = g2 @ (46 # g3 @ drop e s)" using c1(3) by simp
  have m3: "i3 \<in> set (upto3 ?P s (Suc i1))"
    using drop_split_run(1) [OF d2 p1(2)] l1 by (auto simp: upto3_mem i3_def)
  have d3: "drop i3 s = 46 # g3 @ drop e s"
    using drop_split_run(2) [OF d2 p1(2)] by (simp add: i3_def)
  note c3 = drop_split_char [OF d3]
  have d4: "drop (Suc i3) s = g3 @ drop e s" using c3(3) by simp
  have e: "e = Suc i3 + length g3" using len ae by (simp add: i1_def i3_def)
  have m5: "e \<in> set (upto3 ?P s (Suc i3))"
    using drop_split_run(1) [OF d4 p1(3)] l1 by (auto simp: upto3_mem e)
  have "e \<in> set [e. i0 \<leftarrow> wb U s a, i1 \<leftarrow> upto3 (is_digit U) s i0, i2 \<leftarrow> one (\<lambda>c. c = 46) s i1,
                i3 \<leftarrow> upto3 (is_digit U) s i2, i4 \<leftarrow> one (\<lambda>c. c = 46) s i3,
                i5 \<leftarrow> upto3 (is_digit U) s i4, e \<leftarrow> wb U s i5]"
    unfolding match_doc_id_chain using bd m1 c1(1,2) m3 c3(1,2) m5 by blast
  then show ?thesis
    unfolding match_doc_id_def first_match_None by (rule mem_not_Nil)
qed


lemma dotted_numeral_not_empty: "dotted_numeral U d \<Longrightarrow> d \<noteq> []"
  by (auto simp: dotted_numeral_def)

text \<open>
  C8, as amended. The pattern has exactly three groups of one to three digits joined by
  periods. The extraction returns \<open>None\<close> exactly when no such numeral stands in the text
  between word boundaries; otherwise it returns such a numeral, and none starts further
  left. The document id of a file is that numeral, and the file name stem, verbatim, when
  there is none.
\<close>

theorem guess_doc_id_three_groups:
  "(guess_doc_id_from_first_page U page_text = None \<longleftrightarrow> (\<forall>a e. \<not> occurs_at U page_text a e)) \<and>
   (\<forall>d. guess_doc_id_from_first_page U page_text = Some d \<longrightarrow>
      (\<exists>a e. occurs_at U page_text a e \<and> d = slice page_text a e \<and>
              (\<forall>a' e'. a' < a \<longrightarrow> \<not> occurs_at U page_text a' e'))) \<and>
   process_pdf_doc_id U (page_text # other_pages) stem =
     (case guess_doc_id_from_first_page U page_text of Some d \<Rightarrow> d | None \<Rightarrow> stem)"
proof -
  let ?s = page_text
  have none1: "\<forall>a e. \<not> occurs_at U ?s a e" if g: "guess_doc_id_from_first_page U ?s = None"
  proof (intro allI notI)
    fix a e assume o: "occurs_at U ?s a e"
    from g have "search_from (match_doc_id U) ?s 0 = None"
      by (cases "search_from (match_doc_id U) ?s 0") (auto simp: guess_doc_id_from_first_page_def)
    then have n: "\<forall>i. 0 \<le> i \<and> i \<le> length ?s \<longrightarrow> match_doc_id U ?s i = None"
      by (simp only: search_from_None)
    from o have "a \<le> length ?s" by (simp add: occurs_at_def)
    with n have "match_doc_id U ?s a = None" by blast
    with match_doc_id_complete [OF o] show False by contradiction
  qed
  have none2: "guess_doc_id_from_first_page U ?s = None" if h: "\<forall>a e. \<not> occurs_at U ?s a e"
  proof -
    have "match_doc_id U ?s i = None" for i
    proof (cases "match_doc_id U ?s i")
      case None
      then show ?thesis .
    next
      case (Some e)
      then have "occurs_at U ?s i e" by (rule match_doc_id_sound)
      with h show ?thesis by blast
    qed
    then have "\<forall>i. 0 \<le> i \<and> i \<le> length ?s \<longrightarrow> match_doc_id U ?s i = None" by blast
    then have "search_from (match_doc_id U) ?s 0 = None" by (simp only: search_from_None)
    then show ?thesis by (simp add: guess_doc_id_from_first_page_def)
  qed
  have some: "\<exists>a e. occurs_at U ?s a e \<and> d = slice ?s a e \<and>
                (\<forall>a' e'. a' < a \<longrightarrow> \<not> occurs_at U ?s a' e')"
    if g: "guess_doc_id_from_first_page U ?s = Some d" for d
  proof -
    from g obtain a b where ab: "search_from (match_doc_id U) ?s 0 = Some (a, b)" "d = slice ?s a b"
      by (cases "search_from (match_doc_id U) ?s 0") (auto simp: guess_doc_id_from_first_page_def)
    from ab(1) have m: "match_doc_id U ?s a = Some b"
      "\<forall>i. 0 \<le> i \<and> i < a \<longrightarrow> match_doc_id U ?s i = None"
      unfolding search_from_Some by blast+
    have o: "occurs_at U ?s a b" using m(1) by (rule match_doc_id_sound)
    have "\<forall>a' e'. a' < a \<longrightarrow> \<not> occurs_at U ?s a' e'"
    proof (intro allI impI notI)
      fix a' e' assume "a' < a" and o': "occurs_at U ?s a' e'"
      with m(2) have "match_doc_id U ?s a' = None" by blast
      with match_doc_id_complete [OF o'] show False by contradiction
    qed
    with o ab(2) show ?thesis by blast
  qed
  have proc: "process_pdf_doc_id U (?s # other_pages) stem =
     (case guess_doc_id_from_first_page U ?s of Some d \<Rightarrow> d | None \<Rightarrow> stem)"
  proof (cases "guess_doc_id_from_first_page U ?s")
    case None
    then show ?thesis by (simp add: process_pdf_doc_id_def)
  next
    case (Some d)
    from some [OF Some] obtain a e where "occurs_at U ?s a e" "d = slice ?s a e" by blast
    then have "dotted_numeral U d" by (simp add: occurs_at_def)
    then have "d \<noteq> []" by (rule dotted_numeral_not_empty)
    with Some show ?thesis by (simp add: process_pdf_doc_id_def)
  qed
  show ?thesis
  proof (intro conjI allI impI)
    show "guess_doc_id_from_first_page U ?s = None \<longleftrightarrow> (\<forall>a e. \<not> occurs_at U ?s a e)"
      using none1 none2 by blast
  next
    fix d assume "guess_doc_id_from_first_page U ?s = Some d"
    then show "\<exists>a e. occurs_at U ?s a e \<and> d = slice ?s a e \<and>
                (\<forall>a' e'. a' < a \<longrightarrow> \<not> occurs_at U ?s a' e')" by (rule some)
  next
    show "process_pdf_doc_id U (?s # other_pages) stem =
     (case guess_doc_id_from_first_page U ?s of Some d \<Rightarrow> d | None \<Rightarrow> stem)" by (rule proc)
  qed
qed

lemmas doc_id_defs = guess_doc_id_from_first_page_def match_doc_id_def process_pdf_doc_id_def

theorem guess_doc_id_three_groups_witness:
  "guess_doc_id_from_first_page ucd_sample (u ''RS 0.747.205 x'') = Some (u ''0.747.205'') \<and>
   (\<exists>a e. occurs_at ucd_sample (u ''RS 0.747.205 x'') a e \<and>
           u ''0.747.205'' = slice (u ''RS 0.747.205 x'') a e) \<and>
   process_pdf_doc_id ucd_sample [u ''RS 0.747.205 x''] (u ''loi'') = u ''0.747.205''"
proof -
  have e: "guess_doc_id_from_first_page ucd_sample (u ''RS 0.747.205 x'') = Some (u ''0.747.205'')"
    by (simp add: doc_id_defs ucd_sample_def re_defs char_defs cong: ev_cong)
  note t = guess_doc_id_three_groups [of ucd_sample "u ''RS 0.747.205 x''" "[]" "u ''loi''"]
  from t e have "\<exists>a e. occurs_at ucd_sample (u ''RS 0.747.205 x'') a e \<and>
           u ''0.747.205'' = slice (u ''RS 0.747.205 x'') a e \<and>
           (\<forall>a' e'. a' < a \<longrightarrow> \<not> occurs_at ucd_sample (u ''RS 0.747.205 x'') a' e')"
    by blast
  moreover from t e have "process_pdf_doc_id ucd_sample [u ''RS 0.747.205 x''] (u ''loi'') = u ''0.747.205''"
    by simp
  ultimately show ?thesis using e by blast
qed

text \<open>
  C8 as stated fails: a numeral of one or two groups is not found, and the stem is used.
\<close>

theorem guess_doc_id_two_groups_counterexample:
  "guess_doc_id_from_first_page ucd_sample (u ''1.2'') = None \<and>
   guess_doc_id_from_first_page ucd_sample (u ''747'') = None \<and>
   process_pdf_doc_id ucd_sample [u ''1.2''] (u ''loi'') = u ''loi''"
  by (simp add: doc_id_defs ucd_sample_def re_defs char_defs cong: ev_cong)

section \<open>Document title: between the markers\<close>

text \<open>
  With both markers in the upper half of the page and no character that normalisation
  changes, the title is the text between them, cleaned up.
\<close>

lemma title_between_markers_example:
  "guess_doc_title_from_first_page ucd_ligature
     [u ''fin'', u ''Texte original'', u ''Accord  sur le com-'', u ''merce'', u ''Conclu le 1er'']
     (u ''x'')
   = u ''Accord sur le com-merce''"
  by (simp add: title_defs ucd_ligature_def re_defs char_defs sub_hyphen_step
          del: sub_hyphen.simps(2) cong: ev_cong)

text \<open>
  C7. The markers are searched in the normalised text, and the indices found there cut
  the text itself. When normalisation changes the length of what stands before the
  markers, the cut is shifted. Here the first line starts with the ligature U+FB01: the
  normalised text is one character longer, the start marker ends at 18 and the end
  marker starts at 25 there, and in the text the indices 18 to 25 hold \<open>Titre\<close>, the line
  break and the \<open>C\<close> of \<open>Conclu\<close>. The title returned is \<open>Titre C\<close>, not the text \<open>Titre\<close>
  between the markers, which is what the same page gives when the first line is written
  with the two letters.
\<close>

theorem title_slice_shifted_by_normalisation:
  "join_nl [[64257, 110], u ''Texte original'', u ''Titre'', u ''Conclu le 1er'']
     = [64257, 110, 10] @ u ''Texte original'' @ [10] @ u ''Titre'' @ [10] @ u ''Conclu le 1er'' \<and>
   nfkd_nomark ucd_ligature
       ([64257, 110, 10] @ u ''Texte original'' @ [10] @ u ''Titre'' @ [10] @ u ''Conclu le 1er'')
     = u ''fin'' @ [10] @ u ''Texte original'' @ [10] @ u ''Titre'' @ [10] @ u ''Conclu le 1er'' \<and>
   search_from match_start_pat
       (u ''fin'' @ [10] @ u ''Texte original'' @ [10] @ u ''Titre'' @ [10] @ u ''Conclu le 1er'') 0
     = Some (4, 18) \<and>
   search_from (match_end_pat ucd_ligature)
       (u ''fin'' @ [10] @ u ''Texte original'' @ [10] @ u ''Titre'' @ [10] @ u ''Conclu le 1er'') 18
     = Some (25, 31) \<and>
   guess_doc_title_from_first_page ucd_ligature
       [[64257, 110], u ''Texte original'', u ''Titre'', u ''Conclu le 1er'']
       ([64257, 110, 10] @ u ''Texte original'' @ [10] @ u ''Titre'' @ [10] @ u ''Conclu le 1er'')
     = u ''Titre C'' \<and>
   guess_doc_title_from_first_page ucd_ligature
       [u ''fin'', u ''Texte original'', u ''Titre'', u ''Conclu le 1er'']
       (u ''fin'' @ [10] @ u ''Texte original'' @ [10] @ u ''Titre'' @ [10] @ u ''Conclu le 1er'')
     = u ''Titre''"
proof -
  have a: "join_nl [[64257, 110], u ''Texte original'', u ''Titre'', u ''Conclu le 1er'']
     = [64257, 110, 10] @ u ''Texte original'' @ [10] @ u ''Titre'' @ [10] @ u ''Conclu le 1er''"
    by (simp add: u_def)
  have b: "nfkd_nomark ucd_ligature
       ([64257, 110, 10] @ u ''Texte original'' @ [10] @ u ''Titre'' @ [10] @ u ''Conclu le 1er'')
     = u ''fin'' @ [10] @ u ''Texte original'' @ [10] @ u ''Titre'' @ [10] @ u ''Conclu le 1er''"
    by (simp add: ucd_ligature_def u_def)
  have c: "search_from match_start_pat
       (u ''fin'' @ [10] @ u ''Texte original'' @ [10] @ u ''Titre'' @ [10] @ u ''Conclu le 1er'') 0
     = Some (4, 18)"
    by (simp add: title_defs ucd_ligature_def re_defs char_defs sub_hyphen_step
          del: sub_hyphen.simps(2) cong: ev_cong)
  have d: "search_from (match_end_pat ucd_ligature)
       (u ''fin'' @ [10] @ u ''Texte original'' @ [10] @ u ''Titre'' @ [10] @ u ''Conclu le 1er'') 18
     = Some (25, 31)"
    by (simp add: title_defs ucd_ligature_def re_defs char_defs sub_hyphen_step
          del: sub_hyphen.simps(2) cong: ev_cong)
  have e: "guess_doc_title_from_first_page ucd_ligature
       [[64257, 110], u ''Texte original'', u ''Titre'', u ''Conclu le 1er'']
       ([64257, 110, 10] @ u ''Texte original'' @ [10] @ u ''Titre'' @ [10] @ u ''Conclu le 1er'')
     = u ''Titre C''"
    by (simp add: title_defs ucd_ligature_def re_defs char_defs sub_hyphen_step
          del: sub_hyphen.simps(2) cong: ev_cong)
  have f: "guess_doc_title_from_first_page ucd_ligature
       [u ''fin'', u ''Texte original'', u ''Titre'', u ''Conclu le 1er'']
       (u ''fin'' @ [10] @ u ''Texte original'' @ [10] @ u ''Titre'' @ [10] @ u ''Conclu le 1er'')
     = u ''Titre''"
    by (simp add: title_defs ucd_ligature_def re_defs char_defs sub_hyphen_step
          del: sub_hyphen.simps(2) cong: ev_cong)
  from a b c d e f show ?thesis by simp
qed

section \<open>Article numbers: what the first two statements produce\<close>

text \<open>
  Replacing superscripts commutes with stripping and with collapsing white space, and the
  text that comes out has single spaces only, none of them at an end, and no
  superscript digit; on such a text the three steps change nothing.
\<close>

lemma is_space_sup_digit [simp]: "is_space (sup_digit c) = is_space c"
  by (auto simp: is_space_def sup_digit_def)

lemma sup_digit_idem [simp]: "sup_digit (sup_digit c) = sup_digit c"
  by (auto simp: sup_digit_def)


lemma dropWhile_space_translate:
  "dropWhile is_space (translate_sup x) = translate_sup (dropWhile is_space x)"
  by (simp add: translate_sup_def dropWhile_map comp_def)

lemma sub_ws_translate: "sub_ws (translate_sup x) = translate_sup (sub_ws x)"
proof (induction x rule: sub_ws.induct)
  case 1
  then show ?case by (simp add: translate_sup_def)
next
  case (2 c cs)
  show ?case
  proof (cases "is_space c")
    case True
    have "sub_ws (translate_sup (c # cs))
            = 32 # sub_ws (dropWhile is_space (translate_sup cs))"
      using True by (simp add: translate_sup_def)
    also have "\<dots> = 32 # translate_sup (sub_ws (dropWhile is_space cs))"
      using 2(1) [OF True] by (simp add: dropWhile_space_translate)
    also have "\<dots> = translate_sup (sub_ws (c # cs))"
      using True by (simp add: translate_sup_def sup_digit_def)
    finally show ?thesis .
  next
    case False
    then show ?thesis using 2(2) by (simp add: translate_sup_def)
  qed
qed

lemma strip_translate: "strip (translate_sup x) = translate_sup (strip x)"
proof -
  have "rev (translate_sup y) = translate_sup (rev y)" for y
    by (simp add: translate_sup_def rev_map)
  then show ?thesis
    by (simp add: strip_def dropWhile_space_translate)
qed

lemma ws_normal_sub_ws: "ws_normal (sub_ws x)"
proof (induction x rule: sub_ws.induct)
  case 1
  then show ?case by simp
next
  case (2 c cs)
  show ?case
  proof (cases "is_space c")
    case True
    have n: "ws_normal (sub_ws (dropWhile is_space cs))" using 2(1) [OF True] .
    have "case sub_ws (dropWhile is_space cs) of [] \<Rightarrow> True | d # _ \<Rightarrow> \<not> is_space d"
    proof (cases "dropWhile is_space cs")
      case Nil
      then show ?thesis by (simp del: dropWhile_eq_Nil_conv)
    next
      case (Cons d ds)
      then have "\<not> is_space d" using hd_dropWhile [of is_space cs] by simp
      with Cons show ?thesis by simp
    qed
    with n True show ?thesis by (simp add: is_space_def)
  next
    case False
    with 2(2) show ?thesis by simp
  qed
qed

lemma ws_normal_sub_ws_id: "ws_normal x \<Longrightarrow> sub_ws x = x"
proof (induction x rule: sub_ws.induct)
  case 1
  then show ?case by simp
next
  case (2 c cs)
  show ?case
  proof (cases "is_space c")
    case True
    with 2(3) have c: "c = 32" and n: "ws_normal cs"
      and h: "case cs of [] \<Rightarrow> True | d # _ \<Rightarrow> \<not> is_space d" by auto
    from h have d: "dropWhile is_space cs = cs" by (cases cs) auto
    with 2(1) [OF True] n have "sub_ws (dropWhile is_space cs) = cs" by simp
    with True c show ?thesis by simp
  next
    case False
    with 2(2,3) show ?thesis by simp
  qed
qed

lemma sub_ws_idem: "sub_ws (sub_ws x) = sub_ws x"
  by (rule ws_normal_sub_ws_id) (rule ws_normal_sub_ws)



lemma ws_normal_append: "ws_normal (x @ y) \<Longrightarrow> ws_normal y"
  by (induction x) auto

lemma ws_normal_dropWhile: "ws_normal x \<Longrightarrow> ws_normal (dropWhile P x)"
  using ws_normal_append [of "takeWhile P x" "dropWhile P x"] by simp

lemma dropWhile_hd_id: "xs \<noteq> [] \<Longrightarrow> \<not> P (hd xs) \<Longrightarrow> dropWhile P xs = xs"
  by (cases xs) auto

lemma last_dropWhile: "dropWhile P xs \<noteq> [] \<Longrightarrow> last (dropWhile P xs) = last xs"
proof -
  assume h: "dropWhile P xs \<noteq> []"
  have "last (takeWhile P xs @ dropWhile P xs) = last (dropWhile P xs)"
    using h by (rule last_appendR)
  then show ?thesis by simp
qed

lemma edge_ok_strip: "edge_ok (strip x)"
proof (cases "strip x = []")
  case True
  then show ?thesis by (simp add: edge_ok_def)
next
  case False
  let ?d = "dropWhile is_space x"
  let ?r = "dropWhile is_space (rev ?d)"
  have sr: "strip x = rev ?r" by (simp add: strip_def)
  have r: "?r \<noteq> []" using False sr by (simp del: dropWhile_eq_Nil_conv)
  have d: "?d \<noteq> []"
  proof
    assume "?d = []"
    then have "?r = []" by (simp del: dropWhile_eq_Nil_conv)
    with r show False by contradiction
  qed
  have 1: "\<not> is_space (hd ?r)" using r by (rule hd_dropWhile)
  have 2: "\<not> is_space (hd ?d)" using d by (rule hd_dropWhile)
  have "last (strip x) = hd ?r" using r sr by (simp add: last_rev del: dropWhile_eq_Nil_conv)
  with 1 have l: "\<not> is_space (last (strip x))" by simp
  have "hd (strip x) = last ?r" using r sr by (simp add: hd_rev del: dropWhile_eq_Nil_conv)
  also have "\<dots> = last (rev ?d)" using r by (rule last_dropWhile)
  also have "\<dots> = hd ?d" using d by (simp add: last_rev del: dropWhile_eq_Nil_conv)
  finally have h: "\<not> is_space (hd (strip x))" using 2 by simp
  from False h l show ?thesis by (cases "strip x") (simp_all add: edge_ok_def)
qed

lemma edge_ok_strip_id: "edge_ok s \<Longrightarrow> strip s = s"
proof (cases s)
  case Nil
  then show ?thesis by (simp add: strip_def)
next
  case (Cons c cs)
  assume "edge_ok s"
  with Cons have a: "\<not> is_space (hd s)" "\<not> is_space (last s)" "s \<noteq> []"
    by (simp_all add: edge_ok_def)
  have 1: "dropWhile is_space s = s" using a(3,1) by (rule dropWhile_hd_id)
  have "rev s \<noteq> []" "\<not> is_space (hd (rev s))" using a by (simp_all add: hd_rev)
  then have "dropWhile is_space (rev s) = rev s" by (rule dropWhile_hd_id)
  with 1 show ?thesis by (simp add: strip_def)
qed

lemma strip_idem: "strip (strip x) = strip x"
  by (rule edge_ok_strip_id) (rule edge_ok_strip)








section \<open>Article numbers: the prefix\<close>




lemma art_chars [simp]:
  "\<not> is_space 65" "\<not> is_space 114" "\<not> is_space 116" "\<not> is_space 46" "is_space 32"
  "sup_digit 65 = 65" "sup_digit 114 = 114" "sup_digit 116 = 116" "sup_digit 46 = 46"
  "sup_digit 32 = 32" "ci_lit 97 65" "ci_lit 114 114" "ci_lit 116 116"
  by (simp_all add: char_defs)





section \<open>Article numbers: digits and letters\<close>















section \<open>Article numbers: the arabic form\<close>








lemma match_arabic_Nil: "match_arabic U tail_max [] = None"
  by (simp add: match_arabic_def try_arabic_def)



section \<open>Article numbers: the roman form\<close>

























section \<open>Article numbers: the tokens\<close>




section \<open>Article numbers: normalising twice\<close>










section \<open>Article numbers: the footnote and the prefix\<close>














end
